theory Spec2Isabelle
  imports Complex_Main
begin

section \<open>Data model (types/index.ts)\<close>

text \<open>
  Amounts in big blinds are JavaScript numbers (doubles) in the source; they are modelled
  as rationals, which every finite double is, with the rounding of each arithmetic
  operation written out (section ``JavaScript numbers''). \<open>order\<close> values and table
  sizes are modelled as integers. The fields
  \<open>id\<close> and \<open>type\<close> of an action are named \<open>ident\<close> and \<open>atype\<close>; an absent
  \<open>sizeBb\<close> is \<open>None\<close>. The seat \<open>UTG+1\<close> is written \<open>UTG1\<close>.
\<close>

datatype BlindLevel = Blind_05_1 | Blind_1_1 | Blind_1_2

datatype Street = Preflop | Flop | Turn | River

datatype ActionType = FOLD | CHECK | CALL | BET | RAISE | ALLIN

datatype Position = UTG | UTG1 | LJ | HJ | CO | BTN | SB | BB

record Action =
  ident :: string
  order :: int
  street :: Street
  position :: Position
  atype :: ActionType
  sizeBb :: "rat option"

text \<open>The three order tables; a table size without an entry gives \<open>None\<close> (\<open>undefined\<close>).\<close>

definition POSITIONS_BY_TABLE_SIZE :: "int \<Rightarrow> Position list option" where
  "POSITIONS_BY_TABLE_SIZE n =
     (if n = 2 then Some [BTN, BB]
      else if n = 3 then Some [BTN, SB, BB]
      else if n = 4 then Some [UTG, BTN, SB, BB]
      else if n = 5 then Some [UTG, CO, BTN, SB, BB]
      else if n = 6 then Some [UTG, HJ, CO, BTN, SB, BB]
      else if n = 7 then Some [UTG, LJ, HJ, CO, BTN, SB, BB]
      else if n = 8 then Some [UTG, UTG1, LJ, HJ, CO, BTN, SB, BB]
      else if n = 9 then Some [UTG, UTG1, LJ, HJ, CO, BTN, SB, BB]
      else None)"

definition PREFLOP_ACTION_ORDER :: "int \<Rightarrow> Position list option" where
  "PREFLOP_ACTION_ORDER n =
     (if n = 2 then Some [BTN, BB]
      else if n = 3 then Some [BTN, SB, BB]
      else if n = 4 then Some [UTG, BTN, SB, BB]
      else if n = 5 then Some [UTG, CO, BTN, SB, BB]
      else if n = 6 then Some [UTG, HJ, CO, BTN, SB, BB]
      else if n = 7 then Some [UTG, LJ, HJ, CO, BTN, SB, BB]
      else if n = 8 then Some [UTG, UTG1, LJ, HJ, CO, BTN, SB, BB]
      else if n = 9 then Some [UTG, UTG1, LJ, HJ, CO, BTN, SB, BB]
      else None)"

definition POSTFLOP_ACTION_ORDER :: "int \<Rightarrow> Position list option" where
  "POSTFLOP_ACTION_ORDER n =
     (if n = 2 then Some [BB, BTN]
      else if n = 3 then Some [SB, BB, BTN]
      else if n = 4 then Some [SB, BB, UTG, BTN]
      else if n = 5 then Some [SB, BB, UTG, CO, BTN]
      else if n = 6 then Some [SB, BB, UTG, HJ, CO, BTN]
      else if n = 7 then Some [SB, BB, UTG, LJ, HJ, CO, BTN]
      else if n = 8 then Some [SB, BB, UTG, UTG1, LJ, HJ, CO, BTN]
      else if n = 9 then Some [SB, BB, UTG, UTG1, LJ, HJ, CO, BTN]
      else None)"

section \<open>ActionInput: blinds and action orders\<close>

fun getBBSize :: "BlindLevel \<Rightarrow> rat" where
  "getBBSize Blind_05_1 = 1"
| "getBBSize Blind_1_1 = 1"
| "getBBSize Blind_1_2 = 2"

fun getSBSize :: "BlindLevel \<Rightarrow> rat" where
  "getSBSize Blind_05_1 = 1 / 2"
| "getSBSize Blind_1_1 = 1"
| "getSBSize Blind_1_2 = 1"

text \<open>\<open>TABLE[tableSize] || []\<close>\<close>

definition preflopOrder :: "int \<Rightarrow> Position list" where
  "preflopOrder tableSize =
     (case PREFLOP_ACTION_ORDER tableSize of Some ps \<Rightarrow> ps | None \<Rightarrow> [])"

definition postflopOrder :: "int \<Rightarrow> Position list" where
  "postflopOrder tableSize =
     (case POSTFLOP_ACTION_ORDER tableSize of Some ps \<Rightarrow> ps | None \<Rightarrow> [])"

definition preflopActions :: "Action list \<Rightarrow> Action list" where
  "preflopActions actions = filter (\<lambda>a. street a = Preflop) actions"

section \<open>JavaScript numbers\<close>

text \<open>
  The amounts of the source are IEEE 754 doubles. A finite double is a rational number,
  and an arithmetic operation of the source is the exact operation followed by rounding
  to the nearest double, the one with the even significand when two are equally near.
  \<open>fl\<close> is that rounding: 53 significant bits at or above the exponent \<open>-1022\<close>, the
  fixed spacing \<open>2^-1074\<close> below it. A result of magnitude \<open>2^1024\<close> or more stands for
  an overflow, which the source turns into \<open>Infinity\<close>; \<open>Infinity\<close> and \<open>NaN\<close> are
  outside the model's numbers. A decimal literal denotes \<open>fl\<close> of its exact value.
\<close>

function bitLength :: "int \<Rightarrow> nat" where
  "bitLength n = (if n \<le> 0 then 0 else Suc (bitLength (n div 2)))"
  by pat_completeness auto
termination
  by (relation "measure nat") auto

declare bitLength.simps [simp del]

definition pow2 :: "int \<Rightarrow> rat" where
  "pow2 e = (if e \<ge> 0 then 2 ^ nat e else 1 / 2 ^ nat (- e))"

text \<open>For \<open>x > 0\<close>, the exponent \<open>e\<close> with \<open>2^e \<le> x < 2^(e+1)\<close>.\<close>

definition ilog2 :: "rat \<Rightarrow> int" where
  "ilog2 x =
     (let (a, b) = quotient_of x;
          e0 = int (bitLength a) - int (bitLength b)
      in if pow2 e0 \<le> x then e0 else e0 - 1)"

definition roundHalfEven :: "rat \<Rightarrow> int" where
  "roundHalfEven m =
     (let n = \<lfloor>m\<rfloor>; f = m - of_int n
      in if f < 1 / 2 then n else if f > 1 / 2 then n + 1
         else if even n then n else n + 1)"

definition fl :: "rat \<Rightarrow> rat" where
  "fl x =
     (if x = 0 then 0
      else
        (let e = max (ilog2 \<bar>x\<bar>) (- 1022);
             q = pow2 (e - 52)
         in of_int (roundHalfEven (x / q)) * q))"

text \<open>\<open>a + b\<close>, \<open>a - b\<close>, \<open>a * b\<close> and \<open>a / b\<close> (for \<open>b \<noteq> 0\<close>) on doubles.\<close>

definition dadd :: "rat \<Rightarrow> rat \<Rightarrow> rat" where
  "dadd a b = fl (a + b)"

definition dsub :: "rat \<Rightarrow> rat \<Rightarrow> rat" where
  "dsub a b = fl (a - b)"

definition dmul :: "rat \<Rightarrow> rat \<Rightarrow> rat" where
  "dmul a b = fl (a * b)"

definition ddiv :: "rat \<Rightarrow> rat \<Rightarrow> rat" where
  "ddiv a b = fl (a / b)"

section \<open>ActionInput: pot size\<close>

text \<open>
  The \<open>bets\<close> object maps a seat to its current bet; its keys keep the order in which
  they were first assigned, which is the order \<open>Object.values\<close> lists the bets in.
\<close>

type_synonym bets = "(Position \<times> rat) list"

text \<open>\<open>bets[k] = v\<close>\<close>

fun setBet :: "bets \<Rightarrow> Position \<Rightarrow> rat \<Rightarrow> bets" where
  "setBet [] k v = [(k, v)]"
| "setBet ((k', v') # rest) k v =
     (if k' = k then (k, v) # rest else (k', v') # setBet rest k v)"

definition bets_values :: "bets \<Rightarrow> rat list" where
  "bets_values bets = map snd bets"

text \<open>\<open>Math.max(...Object.values(bets), 0)\<close>\<close>

definition maxBet :: "bets \<Rightarrow> rat" where
  "maxBet bets = foldr max (bets_values bets) 0"

text \<open>\<open>Object.values(bets).reduce((sum, b) => sum + b, 0)\<close>\<close>

definition sumBets :: "bets \<Rightarrow> rat" where
  "sumBets bets = foldl dadd 0 (bets_values bets)"

text \<open>One iteration of \<open>streetActions.forEach\<close> on an elapsed street.\<close>

definition applyBet :: "bets \<Rightarrow> Action \<Rightarrow> bets" where
  "applyBet bets a =
     (if atype a = RAISE \<and> sizeBb a \<noteq> None then
        (case sizeBb a of
           Some s \<Rightarrow> setBet bets (position a) (if s = - 1 then 100 else s)
         | None \<Rightarrow> bets)
      else if atype a = CALL then setBet bets (position a) (maxBet bets)
      else bets)"

text \<open>\<open>Object.keys(bets).forEach((k) => (bets[k] = 0))\<close>\<close>

definition resetBets :: "bets \<Rightarrow> bets" where
  "resetBets bets = map (\<lambda>(k, v). (k, 0)) bets"

definition streets :: "Street list" where
  "streets = [Preflop, Flop, Turn, River]"

fun streetIndex :: "Street \<Rightarrow> nat" where
  "streetIndex Preflop = 0"
| "streetIndex Flop = 1"
| "streetIndex Turn = 2"
| "streetIndex River = 3"

text \<open>
  The body of the loop \<open>for (let i = 0; i <= currentStreetIndex; i++)\<close>: only a street
  before the current one is processed.
\<close>

definition potStep :: "Action list \<Rightarrow> nat \<Rightarrow> rat \<times> bets \<Rightarrow> nat \<Rightarrow> rat \<times> bets" where
  "potStep actions currentStreetIndex st i =
     (let streetActions = filter (\<lambda>a. street a = streets ! i) actions in
      if i < currentStreetIndex then
        (let bets' = foldl applyBet (snd st) streetActions in
         (dadd (fst st) (sumBets bets'), resetBets bets'))
      else st)"

definition potSize :: "Action list \<Rightarrow> Street \<Rightarrow> int \<Rightarrow> BlindLevel \<Rightarrow> rat" where
  "potSize actions currentStreet tableSize blind =
     (let bbSize = getBBSize blind;
          sbSize = getSBSize blind;
          hasSB = (tableSize \<ge> 3);
          pot0 = dadd (if hasSB then dadd 0 (ddiv sbSize bbSize) else 0) 1;
          currentStreetIndex = streetIndex currentStreet;
          bets0 = (if hasSB then setBet [] SB (ddiv sbSize bbSize) else []);
          bets1 = setBet bets0 BB 1
      in fst (foldl (potStep actions currentStreetIndex) (pot0, bets1)
                [0 ..< Suc currentStreetIndex]))"

section \<open>ActionInput: who is still in the hand\<close>

text \<open>
  \<open>xs.reduce((latest, current) => current.order > latest.order ? current : latest)\<close>
  on a non-empty array \<open>x # xs\<close>, and the same with \<open><\<close> for the earliest action.
\<close>

definition latestOf :: "Action \<Rightarrow> Action list \<Rightarrow> Action" where
  "latestOf x xs =
     foldl (\<lambda>latest current. if order current > order latest then current else latest) x xs"

definition earliestOf :: "Action \<Rightarrow> Action list \<Rightarrow> Action" where
  "earliestOf x xs =
     foldl (\<lambda>earliest current. if order current < order earliest then current else earliest) x xs"

definition isRaise :: "Action \<Rightarrow> bool" where
  "isRaise a = (atype a = RAISE)"

text \<open>The two \<open>forEach\<close> loops of \<open>playersInHand\<close> that push seats onto \<open>inHand\<close>.\<close>

definition pushCallers :: "int \<Rightarrow> Position list \<Rightarrow> Action \<Rightarrow> Position list" where
  "pushCallers lastRaiseOrder inHand a =
     (if order a > lastRaiseOrder \<and>
         (atype a = CALL \<or> (atype a = RAISE \<and> sizeBb a = Some (- 1))) then
        (if position a \<notin> set inHand then inHand @ [position a] else inHand)
      else inHand)"

definition pushAllIn :: "Position list \<Rightarrow> Action \<Rightarrow> Position list" where
  "pushAllIn inHand a =
     (if sizeBb a = Some (- 1) \<and> position a \<notin> set inHand then inHand @ [position a]
      else inHand)"

definition playersInHand :: "Action list \<Rightarrow> int \<Rightarrow> Position list" where
  "playersInHand actions tableSize =
     (case filter isRaise (preflopActions actions) of
        [] \<Rightarrow> postflopOrder tableSize
      | r # rs \<Rightarrow>
          (let lastRaise = latestOf r rs;
               lastRaiseOrder = order lastRaise;
               inHand1 = foldl (pushCallers lastRaiseOrder) [position lastRaise]
                           (preflopActions actions);
               inHand2 = foldl pushAllIn inHand1 (preflopActions actions)
           in filter (\<lambda>pos. pos \<in> set inHand2) (postflopOrder tableSize)))"

definition explicitlyFoldedPositions :: "Action list \<Rightarrow> Position list" where
  "explicitlyFoldedPositions actions =
     map position (filter (\<lambda>a. atype a = FOLD) actions)"

text \<open>\<open>Array.prototype.indexOf\<close>: the first index of the element, or \<open>-1\<close>.\<close>

fun indexOf :: "'a list \<Rightarrow> 'a \<Rightarrow> int" where
  "indexOf [] x = - 1"
| "indexOf (y # ys) x =
     (if y = x then 0 else (let r = indexOf ys x in if r < 0 then - 1 else r + 1))"

text \<open>The body of \<open>for (let i = 0; i < firstRaisePosIndex; i++)\<close>.\<close>

definition implicitStep :: "Action list \<Rightarrow> Position list \<Rightarrow> Position list \<Rightarrow> nat \<Rightarrow> Position list" where
  "implicitStep preflopActs order_list implicitFolds i =
     (let pos = order_list ! i;
          hasExplicitAction = (\<exists>a \<in> set preflopActs. position a = pos)
      in if \<not> hasExplicitAction then implicitFolds @ [pos] else implicitFolds)"

definition implicitlyFoldedPositions :: "Action list \<Rightarrow> Street \<Rightarrow> int \<Rightarrow> Position list" where
  "implicitlyFoldedPositions actions currentStreet tableSize =
     (if currentStreet \<noteq> Preflop then []
      else
        (case filter isRaise (preflopActions actions) of
           [] \<Rightarrow> []
         | r # rs \<Rightarrow>
             (let firstRaiseAction = earliestOf r rs;
                  firstRaisePos = position firstRaiseAction;
                  firstRaisePosIndex = indexOf (preflopOrder tableSize) firstRaisePos
              in foldl (implicitStep (preflopActions actions) (preflopOrder tableSize)) []
                   [0 ..< nat firstRaisePosIndex])))"

text \<open>\<open>[...new Set(xs)]\<close>: the elements of \<open>xs\<close>, each once, in order of first occurrence.\<close>

definition uniq :: "'a list \<Rightarrow> 'a list" where
  "uniq xs = rev (remdups (rev xs))"

definition allFoldedPositions :: "Action list \<Rightarrow> Street \<Rightarrow> int \<Rightarrow> Position list" where
  "allFoldedPositions actions currentStreet tableSize =
     uniq (explicitlyFoldedPositions actions @
           implicitlyFoldedPositions actions currentStreet tableSize)"

definition availablePositions :: "Action list \<Rightarrow> Street \<Rightarrow> int \<Rightarrow> Position list" where
  "availablePositions actions currentStreet tableSize =
     (if currentStreet = Preflop then
        filter (\<lambda>pos. pos \<notin> set (allFoldedPositions actions currentStreet tableSize))
          (preflopOrder tableSize)
      else
        filter (\<lambda>pos. pos \<notin> set (explicitlyFoldedPositions actions))
          (playersInHand actions tableSize))"

section \<open>ActionInput: street completion\<close>

definition currentStreetActions :: "Action list \<Rightarrow> Street \<Rightarrow> Action list" where
  "currentStreetActions actions currentStreet = filter (\<lambda>a. street a = currentStreet) actions"

text \<open>A raise whose size is not the all-in sentinel (an absent size is not the sentinel).\<close>

definition isOpenRaise :: "Action \<Rightarrow> bool" where
  "isOpenRaise a = (atype a = RAISE \<and> sizeBb a \<noteq> Some (- 1))"

text \<open>\<open>[...streetRaises].sort((a, b) => a.order - b.order)\<close>, a stable sort.\<close>

definition sortedByOrder :: "Action list \<Rightarrow> Action list" where
  "sortedByOrder xs = sort_key order xs"

definition preflopActivePlayers :: "Action list \<Rightarrow> Street \<Rightarrow> int \<Rightarrow> Position list" where
  "preflopActivePlayers actions currentStreet tableSize =
     (let foldedInStreet =
            map position (filter (\<lambda>a. atype a = FOLD) (currentStreetActions actions currentStreet))
      in filter (\<lambda>p. p \<notin> set (allFoldedPositions actions currentStreet tableSize) \<and>
                      p \<notin> set foldedInStreet)
           (preflopOrder tableSize))"

definition isStreetComplete :: "Action list \<Rightarrow> Street \<Rightarrow> int \<Rightarrow> bool" where
  "isStreetComplete actions currentStreet tableSize =
     (case currentStreetActions actions currentStreet of
        [] \<Rightarrow> False
      | c # cs \<Rightarrow>
          (let streetRaises = filter isRaise (c # cs);
               lastAction = latestOf c cs
           in if atype lastAction = RAISE \<and> sizeBb lastAction \<noteq> Some (- 1) then False
              else if currentStreet = Preflop then
                (if length streetRaises > 0 then
                   (if atype lastAction = CALL \<and>
                       (if length streetRaises = 1 then position lastAction = BB
                        else position lastAction =
                               position (sortedByOrder streetRaises ! (length streetRaises - 2)))
                    then True
                    else length (preflopActivePlayers actions currentStreet tableSize) = 1)
                 else False)
              else
                (case streetRaises of
                   r # rs \<Rightarrow>
                     (let lastRaise = latestOf r rs;
                          lastRaiserPos = position lastRaise;
                          lastRaiseOrder = order lastRaise;
                          otherActivePlayers =
                            filter (\<lambda>p. p \<noteq> lastRaiserPos)
                              (availablePositions actions currentStreet tableSize);
                          actionsAfterLastRaise =
                            filter (\<lambda>a. order a > lastRaiseOrder) (c # cs);
                          playersActedAfterRaise = map position actionsAfterLastRaise;
                          allOthersActed =
                            (\<forall>p \<in> set otherActivePlayers.
                               p \<in> set playersActedAfterRaise \<or>
                               p \<in> set (explicitlyFoldedPositions actions));
                          lastActionIsNotRaise =
                            (atype lastAction \<noteq> RAISE \<or> sizeBb lastAction = Some (- 1))
                      in allOthersActed \<and> lastActionIsNotRaise)
                 | [] \<Rightarrow>
                     (let checkCount = length (filter (\<lambda>a. atype a = CHECK) (c # cs))
                      in checkCount \<ge> length (availablePositions actions currentStreet tableSize)))))"

section \<open>Action labels: the editor (ActionInput) and the export (clipboard.ts)\<close>

fun toLowerCase :: "ActionType \<Rightarrow> string" where
  "toLowerCase FOLD = ''fold''"
| "toLowerCase CHECK = ''check''"
| "toLowerCase CALL = ''call''"
| "toLowerCase BET = ''bet''"
| "toLowerCase RAISE = ''raise''"
| "toLowerCase ALLIN = ''allin''"

text \<open>The decimal digits of a natural number, as a template literal prints it.\<close>

definition digitChar :: "nat \<Rightarrow> char" where
  "digitChar d = ''0123456789'' ! d"

function numToString :: "nat \<Rightarrow> string" where
  "numToString n =
     (if n < 10 then [digitChar n] else numToString (n div 10) @ [digitChar (n mod 10)])"
  by pat_completeness auto
termination
  by (relation "measure id") auto

declare numToString.simps [simp del]

definition getRaiseLabel :: "Action \<Rightarrow> Action list \<Rightarrow> string" where
  "getRaiseLabel action allActions =
     (if atype action \<noteq> RAISE then toLowerCase (atype action)
      else
        (let streetActions =
               filter (\<lambda>a. street a = street action \<and> order a \<le> order action) allActions;
             raiseCount = length (filter (\<lambda>a. atype a = RAISE) streetActions)
         in if street action = Preflop then
              (if raiseCount = 1 then ''open''
               else if raiseCount = 2 then ''3bet''
               else if raiseCount = 3 then ''4bet''
               else if raiseCount = 4 then ''5bet''
               else numToString (raiseCount + 1) @ ''bet'')
            else (if raiseCount = 1 then ''bet'' else ''raise'')))"

definition getActionDisplayLabel :: "Action list \<Rightarrow> Action \<Rightarrow> string" where
  "getActionDisplayLabel actions action =
     (if atype action = RAISE then
        (let priorRaises =
               length (filter (\<lambda>a. street a = street action \<and> atype a = RAISE \<and>
                                    order a < order action) actions)
         in if street action = Preflop then
              (if priorRaises = 0 then ''open''
               else if priorRaises = 1 then ''3bet''
               else if priorRaises = 2 then ''4bet''
               else numToString (priorRaises + 2) @ ''bet'')
            else (if priorRaises = 0 then ''bet'' else ''raise''))
      else toLowerCase (atype action))"

section \<open>The editor: appending and removing actions\<close>

text \<open>
  The state the handlers read and write: the hand's action list and settings held by
  HandEditor, and the selection state of ActionInput. \<open>e_stacks pos\<close> is
  \<open>tableAssignments[pos]?.stackBb\<close>.
\<close>

record Editor =
  e_actions :: "Action list"
  e_currentStreet :: Street
  e_tableSize :: int
  e_blind :: BlindLevel
  e_stacks :: "Position \<Rightarrow> rat option"
  selectedPosition :: "Position option"
  selectedType :: "ActionType option"
  showNumpad :: bool
  customSize :: string

text \<open>HandEditor: \<open>handleAddAction\<close> and \<open>handleRemoveAction\<close>.\<close>

definition handleAddAction :: "Action \<Rightarrow> Editor \<Rightarrow> Editor" where
  "handleAddAction action st = st\<lparr>e_actions := e_actions st @ [action]\<rparr>"

definition handleRemoveAction :: "string \<Rightarrow> Editor \<Rightarrow> Editor" where
  "handleRemoveAction actionId st =
     st\<lparr>e_actions := filter (\<lambda>a. ident a \<noteq> actionId) (e_actions st)\<rparr>"

definition resetSelection :: "Editor \<Rightarrow> Editor" where
  "resetSelection st =
     st\<lparr>selectedPosition := None, selectedType := None, showNumpad := False, customSize := []\<rparr>"

definition handlePositionSelect :: "Position \<Rightarrow> Editor \<Rightarrow> Editor" where
  "handlePositionSelect pos st =
     st\<lparr>selectedPosition := Some pos, selectedType := None, showNumpad := False,
        customSize := []\<rparr>"

text \<open>\<open>x && x > 0\<close> on an optional number.\<close>

fun positiveSize :: "rat option \<Rightarrow> bool" where
  "positiveSize None = False"
| "positiveSize (Some s) = (s > 0)"

definition spentStep :: "Action list \<Rightarrow> Position \<Rightarrow> rat \<Rightarrow> Action \<Rightarrow> rat" where
  "spentStep actions pos spent a =
     (if position a = pos \<and> positiveSize (sizeBb a) then
        (case sizeBb a of Some s \<Rightarrow> s | None \<Rightarrow> spent)
      else if position a = pos \<and> atype a = CALL then
        (let priorActions = filter (\<lambda>pa. order pa < order a \<and> street pa = street a) actions;
             priorRaises = filter (\<lambda>pa. atype pa = RAISE) priorActions;
             lastRaiseSize = (if priorRaises = [] then None else sizeBb (last priorRaises))
         in if positiveSize lastRaiseSize then
              (case lastRaiseSize of Some s \<Rightarrow> s | None \<Rightarrow> spent)
            else spent)
      else spent)"

definition getRemainingStack :: "Editor \<Rightarrow> Position \<Rightarrow> rat option" where
  "getRemainingStack st pos =
     (case e_stacks st pos of
        None \<Rightarrow> None
      | Some stackBb \<Rightarrow>
          if stackBb = 0 then None
          else
            (let hasSB = (e_tableSize st \<ge> 3);
                 spent0 = (if pos = SB \<and> hasSB
                           then dadd 0 (ddiv (getSBSize (e_blind st)) (getBBSize (e_blind st)))
                           else if pos = BB then dadd 0 1 else 0);
                 spent = foldl (spentStep (e_actions st) pos) spent0 (e_actions st)
             in Some (max 0 (dsub stackBb spent))))"

definition allInSize :: "Editor \<Rightarrow> rat option" where
  "allInSize st =
     (case selectedPosition st of None \<Rightarrow> None | Some pos \<Rightarrow> getRemainingStack st pos)"

definition currentStreetRaiseCount :: "Editor \<Rightarrow> nat" where
  "currentStreetRaiseCount st =
     length (filter (\<lambda>a. street a = e_currentStreet st \<and> atype a = RAISE) (e_actions st))"

definition isThreeBetOrMore :: "Editor \<Rightarrow> bool" where
  "isThreeBetOrMore st = (e_currentStreet st = Preflop \<and> currentStreetRaiseCount st \<ge> 1)"

text \<open>
  The handlers of ActionInput. \<open>newId\<close> is the value \<open>uuidv4()\<close> returns; every new
  action takes \<open>actions.length\<close> as its \<open>order\<close>.
\<close>

definition handleTypeSelect :: "string \<Rightarrow> ActionType \<Rightarrow> Editor \<Rightarrow> Editor" where
  "handleTypeSelect newId ty st =
     (case selectedPosition st of
        None \<Rightarrow> st
      | Some pos \<Rightarrow>
          if ty = FOLD \<or> ty = CHECK \<or> ty = CALL then
            resetSelection (handleAddAction
              \<lparr>ident = newId, order = int (length (e_actions st)), street = e_currentStreet st,
               position = pos, atype = ty, sizeBb = None\<rparr> st)
          else if ty = ALLIN then
            resetSelection (handleAddAction
              \<lparr>ident = newId, order = int (length (e_actions st)), street = e_currentStreet st,
               position = pos, atype = RAISE,
               sizeBb = Some (case allInSize st of Some v \<Rightarrow> v | None \<Rightarrow> - 1)\<rparr> st)
          else if isThreeBetOrMore st \<and> ty = RAISE then
            st\<lparr>selectedType := Some ty, showNumpad := True, customSize := []\<rparr>
          else st\<lparr>selectedType := Some ty, showNumpad := False\<rparr>)"

text \<open>
  The values of \<open>POSTFLOP_SIZE_PRESETS\<close>, written 0.25, 0.33, 0.5, 0.67 and 1.
\<close>

definition POSTFLOP_SIZE_PRESETS :: "rat list" where
  "POSTFLOP_SIZE_PRESETS = [fl (25 / 100), fl (33 / 100), fl (5 / 10), fl (67 / 100), fl 1]"

text \<open>
  \<open>Math.round\<close>: the nearest integer, the larger one when two are equally near.
\<close>

definition Math_round :: "rat \<Rightarrow> int" where
  "Math_round x = \<lfloor>x + 1 / 2\<rfloor>"

definition handlePotRatioSelect :: "string \<Rightarrow> rat \<Rightarrow> Editor \<Rightarrow> Editor" where
  "handlePotRatioSelect newId ratio st =
     (case (selectedPosition st, selectedType st) of
        (Some pos, Some ty) \<Rightarrow>
          (let calculatedBb =
                 Math_round (dmul (potSize (e_actions st) (e_currentStreet st) (e_tableSize st)
                                     (e_blind st)) ratio)
           in resetSelection (handleAddAction
                \<lparr>ident = newId, order = int (length (e_actions st)),
                 street = e_currentStreet st, position = pos, atype = RAISE,
                 sizeBb = Some (of_int calculatedBb)\<rparr> st))
      | _ \<Rightarrow> st)"

definition handleSizeSelect :: "string \<Rightarrow> rat \<Rightarrow> Editor \<Rightarrow> Editor" where
  "handleSizeSelect newId sz st =
     (case (selectedPosition st, selectedType st) of
        (Some pos, Some ty) \<Rightarrow>
          resetSelection (handleAddAction
            \<lparr>ident = newId, order = int (length (e_actions st)),
             street = e_currentStreet st, position = pos, atype = RAISE,
             sizeBb = Some sz\<rparr> st)
      | _ \<Rightarrow> st)"

section \<open>Home: the seats of a new hand\<close>

text \<open>
  \<open>POSITIONS_BY_TABLE_SIZE[settings.lastTableSize] || POSITIONS_BY_TABLE_SIZE[6]\<close>:
  the second entry is read when the first is \<open>undefined\<close>.
\<close>

definition newHandPositions :: "int \<Rightarrow> Position list option" where
  "newHandPositions lastTableSize =
     (case POSITIONS_BY_TABLE_SIZE lastTableSize of
        Some ps \<Rightarrow> Some ps
      | None \<Rightarrow> POSITIONS_BY_TABLE_SIZE 6)"

section \<open>Example hands and auxiliary notions\<close>

definition mkAction :: "string \<Rightarrow> int \<Rightarrow> Street \<Rightarrow> Position \<Rightarrow> ActionType \<Rightarrow> rat option \<Rightarrow> Action" where
  "mkAction i n s p t z = \<lparr>ident = i, order = n, street = s, position = p, atype = t, sizeBb = z\<rparr>"

definition open_fold_call :: "Action list" where
  "open_fold_call =
     [mkAction ''a0'' 0 Preflop UTG RAISE (Some (5 / 2)),
      mkAction ''a1'' 1 Preflop HJ FOLD None,
      mkAction ''a2'' 2 Preflop CO FOLD None,
      mkAction ''a3'' 3 Preflop BTN FOLD None,
      mkAction ''a4'' 4 Preflop SB FOLD None,
      mkAction ''a5'' 5 Preflop BB CALL None]"

definition bets_nonneg :: "bets \<Rightarrow> bool" where
  "bets_nonneg b = (\<forall>v \<in> set (bets_values b). 0 \<le> v)"

definition sizes_ok :: "Action list \<Rightarrow> bool" where
  "sizes_ok acts = (\<forall>a \<in> set acts. \<forall>v. sizeBb a = Some v \<longrightarrow> 0 \<le> v \<or> v = - 1)"

text \<open>A pot value: a non-negative double.\<close>

definition pot_ok :: "rat \<Rightarrow> bool" where
  "pot_ok p = (0 \<le> p \<and> fl p = p)"

definition initialPot :: "int \<Rightarrow> BlindLevel \<Rightarrow> rat \<times> bets" where
  "initialPot tableSize blind =
     (dadd (if tableSize \<ge> 3 then dadd 0 (ddiv (getSBSize blind) (getBBSize blind)) else 0) 1,
      setBet (if tableSize \<ge> 3 then setBet [] SB (ddiv (getSBSize blind) (getBBSize blind))
              else []) BB 1)"

text \<open>The exponent and the spacing \<open>fl\<close> rounds a number with.\<close>

definition expo :: "rat \<Rightarrow> int" where
  "expo x = max (ilog2 \<bar>x\<bar>) (- 1022)"

definition quantum :: "rat \<Rightarrow> rat" where
  "quantum x = pow2 (expo x - 52)"

definition btn_open_bb_call :: "Action list" where
  "btn_open_bb_call =
     [mkAction ''b0'' 0 Preflop BTN RAISE (Some 3),
      mkAction ''b1'' 1 Preflop SB FOLD None,
      mkAction ''b2'' 2 Preflop BB CALL None]"

definition folds_then_bb_raise :: "Action list" where
  "folds_then_bb_raise =
     [mkAction ''c0'' 0 Preflop BTN FOLD None,
      mkAction ''c1'' 1 Preflop SB FOLD None,
      mkAction ''c2'' 2 Preflop BB RAISE (Some 3)]"

definition utg_open_bb_3bet :: "Action list" where
  "utg_open_bb_3bet =
     [mkAction ''d0'' 0 Preflop UTG RAISE (Some 3),
      mkAction ''d1'' 1 Preflop BB RAISE (Some 9)]"

definition flop_bet_call :: "Action list" where
  "flop_bet_call =
     open_fold_call @
     [mkAction ''a6'' 6 Flop BB CHECK None,
      mkAction ''a7'' 7 Flop UTG RAISE (Some 3),
      mkAction ''a8'' 8 Flop BB CALL None]"

definition co_open_btn_call :: "Action list" where
  "co_open_btn_call =
     [mkAction ''e0'' 0 Preflop CO RAISE (Some 3),
      mkAction ''e1'' 1 Preflop BTN CALL None]"

text \<open>
  The count the labels are derived from: the raises of the action's street whose order is
  at most the action's own.
\<close>

definition raisesUpTo :: "Action \<Rightarrow> Action list \<Rightarrow> nat" where
  "raisesUpTo action allActions =
     length (filter (\<lambda>a. atype a = RAISE \<and> street a = street action \<and>
                          order a \<le> order action) allActions)"

definition raisesAt :: "Action \<Rightarrow> Action list \<Rightarrow> nat" where
  "raisesAt action allActions =
     length (filter (\<lambda>a. atype a = RAISE \<and> street a = street action \<and>
                          order a = order action) allActions)"

definition three_raises :: "Action list" where
  "three_raises =
     [mkAction ''h0'' 0 Preflop UTG RAISE (Some 3),
      mkAction ''h1'' 1 Flop BB RAISE (Some 2),
      mkAction ''h2'' 2 Preflop CO RAISE (Some 9),
      mkAction ''h3'' 3 Flop UTG CALL None,
      mkAction ''h4'' 4 Preflop UTG RAISE (Some 27)]"

definition five_raises :: "Action list" where
  "five_raises =
     [mkAction ''i0'' 0 Preflop UTG RAISE (Some 3),
      mkAction ''i1'' 1 Preflop CO RAISE (Some 9),
      mkAction ''i2'' 2 Preflop UTG RAISE (Some 27),
      mkAction ''i3'' 3 Preflop CO RAISE (Some 81),
      mkAction ''i4'' 4 Preflop UTG RAISE (Some (- 1))]"

definition emptyEditor :: Editor where
  "emptyEditor =
     \<lparr>e_actions = [], e_currentStreet = Preflop, e_tableSize = 6, e_blind = Blind_05_1,
      e_stacks = (\<lambda>_. None), selectedPosition = None, selectedType = None,
      showNumpad = False, customSize = []\<rparr>"

text \<open>
  UTG opens to 3, HJ re-raises to 9, the UTG action is removed, CO raises to 27. Choosing
  RAISE only sets the selection (no action is created, so the identifier is unused); the
  size is then confirmed through \<open>handleSizeSelect\<close>.
\<close>

definition raise_removed_raise :: Editor where
  "raise_removed_raise =
     handleSizeSelect ''g2'' 27 (handleTypeSelect ''-'' RAISE (handlePositionSelect CO
       (handleRemoveAction ''g0''
         (handleSizeSelect ''g1'' 9 (handleTypeSelect ''-'' RAISE (handlePositionSelect HJ
           (handleSizeSelect ''g0'' 3 (handleTypeSelect ''-'' RAISE (handlePositionSelect UTG
              emptyEditor)))))))))"

text \<open>On the flop of the hand \<open>open_fold_call\<close>, BB checks once, then a second time.\<close>

definition flop_bb_checks_once :: "Action list" where
  "flop_bb_checks_once = open_fold_call @ [mkAction ''a6'' 6 Flop BB CHECK None]"

definition flop_bb_checks_twice :: "Action list" where
  "flop_bb_checks_twice = flop_bb_checks_once @ [mkAction ''a7'' 7 Flop BB CHECK None]"



text \<open>
  UTG raise 2.3, CO raise 4.6, BTN call, UTG fold, the sizes as the numeric pad gives
  them: the additions of the source leave the pot just below 14.5 BB.
\<close>

definition flop_pot_below_tie :: Editor where
  "flop_pot_below_tie =
     \<lparr>e_actions = [mkAction ''m0'' 0 Preflop UTG RAISE (Some (fl (23 / 10))),
                   mkAction ''m1'' 1 Preflop CO RAISE (Some (fl (46 / 10))),
                   mkAction ''m2'' 2 Preflop BTN CALL None,
                   mkAction ''m3'' 3 Preflop UTG FOLD None],
      e_currentStreet = Flop, e_tableSize = 6,
      e_blind = Blind_05_1, e_stacks = (\<lambda>_. None), selectedPosition = Some BTN,
      selectedType = Some RAISE, showNumpad = False, customSize = []\<rparr>"

text \<open>UTG folds, HJ folds, the UTG action is removed, CO folds.\<close>

definition fold_removed :: Editor where
  "fold_removed =
     handleRemoveAction ''k0''
       (handleTypeSelect ''k1'' FOLD (handlePositionSelect HJ
         (handleTypeSelect ''k0'' FOLD (handlePositionSelect UTG emptyEditor))))"

definition fold_removed_fold :: Editor where
  "fold_removed_fold = handleTypeSelect ''k2'' FOLD (handlePositionSelect CO fold_removed)"

section \<open>Verification: rounding to doubles\<close>

lemma pow2_powi: "pow2 e = 2 powi e"
  by (simp add: pow2_def power_int_def inverse_eq_divide power_one_over)

lemma pow2_pos: "0 < pow2 e"
  by (simp add: pow2_powi)

lemma pow2_add: "pow2 (a + b) = pow2 a * pow2 b"
  by (simp add: pow2_powi power_int_add)

lemma pow2_strict_mono: "a < b \<Longrightarrow> pow2 a < pow2 b"
  by (simp add: pow2_powi power_int_strict_increasing)

lemma pow2_mono: "a \<le> b \<Longrightarrow> pow2 a \<le> pow2 b"
  by (simp add: pow2_powi power_int_increasing)

lemma pow2_less_iff: "pow2 a < pow2 b \<longleftrightarrow> a < b"
  using pow2_strict_mono[of a b] pow2_mono[of b a] by (cases "a < b") auto

lemma pow2_le_iff: "pow2 a \<le> pow2 b \<longleftrightarrow> a \<le> b"
  using pow2_mono[of a b] pow2_strict_mono[of b a] by (cases "a \<le> b") auto

lemma pow2_nat: "pow2 (int n) = 2 ^ n"
  by (simp add: pow2_def)

lemma bitLength_bounds:
  "0 < n \<Longrightarrow> 2 ^ (bitLength n - 1) \<le> n \<and> n < 2 ^ bitLength n"
proof (induction n rule: bitLength.induct)
  case (1 n)
  show ?case
  proof (cases "n div 2 = 0")
    case True
    then have "n = 1" using "1.prems" by linarith
    then show ?thesis by (simp add: bitLength.simps[of 1] bitLength.simps[of 0])
  next
    case False
    then have pos: "0 < n div 2" using "1.prems" by linarith
    have ih: "2 ^ (bitLength (n div 2) - 1) \<le> n div 2 \<and> n div 2 < 2 ^ bitLength (n div 2)"
      using "1.IH" "1.prems" pos by simp
    have bl: "bitLength n = Suc (bitLength (n div 2))"
      using "1.prems" by (simp add: bitLength.simps[of n])
    have ge1: "bitLength (n div 2) \<ge> 1"
      using pos by (simp add: bitLength.simps[of "n div 2"])
    then obtain k where k: "bitLength (n div 2) = Suc k"
      by (cases "bitLength (n div 2)") auto
    have "2 * 2 ^ k \<le> n" using ih k by simp linarith
    moreover have "n < 2 * 2 ^ Suc k" using ih k by simp linarith
    ultimately show ?thesis by (simp add: bl k)
  qed
qed

lemma bitLength_pos: "0 < n \<Longrightarrow> 0 < bitLength n"
  by (simp add: bitLength.simps[of n])

lemma ilog2_spec:
  assumes "0 < x"
  shows "pow2 (ilog2 x) \<le> x \<and> x < pow2 (ilog2 x + 1)"
proof -
  obtain a b where q: "quotient_of x = (a, b)" by (cases "quotient_of x")
  have b: "0 < b" using quotient_of_denom_pos[OF q] .
  have x: "x = of_int a / of_int b" using quotient_of_div[OF q] .
  have a: "0 < a" using assms b x by (simp add: zero_less_divide_iff)
  define la where "la = bitLength a"
  define lb where "lb = bitLength b"
  have la: "0 < la" "2 ^ (la - 1) \<le> a" "a < 2 ^ la"
    using bitLength_bounds[OF a] bitLength_pos[OF a] by (simp_all add: la_def)
  have lb: "0 < lb" "2 ^ (lb - 1) \<le> b" "b < 2 ^ lb"
    using bitLength_bounds[OF b] bitLength_pos[OF b] by (simp_all add: lb_def)
  have ra: "(2::rat) ^ (la - 1) \<le> of_int a" "of_int a < (2::rat) ^ la"
    using la(2,3) by (metis of_int_le_iff of_int_numeral of_int_power, metis of_int_less_iff of_int_numeral of_int_power)
  have rb: "(2::rat) ^ (lb - 1) \<le> of_int b" "of_int b < (2::rat) ^ lb"
    using lb(2,3) by (metis of_int_le_iff of_int_numeral of_int_power, metis of_int_less_iff of_int_numeral of_int_power)
  have bpos: "(0::rat) < of_int b" using b by simp
  have up: "x < pow2 (int la - int lb + 1)"
  proof -
    have ex: "int la - int lb + 1 + int (lb - 1) = int la" using lb(1) by linarith
    have eq: "pow2 (int la - int lb + 1) * 2 ^ (lb - 1) = 2 ^ la"
      by (metis pow2_add pow2_nat ex)
    have "pow2 (int la - int lb + 1) * 2 ^ (lb - 1) \<le> pow2 (int la - int lb + 1) * of_int b"
      using rb(1) pow2_pos[of "int la - int lb + 1"] by (intro mult_left_mono) simp_all
    then have "of_int a < pow2 (int la - int lb + 1) * of_int b"
      using ra(2) unfolding eq by linarith
    then show ?thesis unfolding x using bpos by (simp only: divide_less_eq if_True)
  qed
  have low: "pow2 (int la - int lb - 1) \<le> x"
  proof -
    have ex: "int la - int lb - 1 + int lb = int (la - 1)" using la(1) by linarith
    have eq: "pow2 (int la - int lb - 1) * 2 ^ lb = 2 ^ (la - 1)"
      by (metis pow2_add pow2_nat ex)
    have "pow2 (int la - int lb - 1) * of_int b \<le> pow2 (int la - int lb - 1) * 2 ^ lb"
      using rb(2) pow2_pos[of "int la - int lb - 1"] by (intro mult_left_mono) simp_all
    then have "pow2 (int la - int lb - 1) * of_int b \<le> of_int a"
      using ra(1) unfolding eq by linarith
    then show ?thesis unfolding x using bpos by (simp only: le_divide_eq if_True)
  qed
  have il: "ilog2 x = (if pow2 (int la - int lb) \<le> x then int la - int lb else int la - int lb - 1)"
    by (simp add: ilog2_def q la_def lb_def Let_def)
  show ?thesis
  proof (cases "pow2 (int la - int lb) \<le> x")
    case True
    then show ?thesis using up il by simp
  next
    case False
    then show ?thesis using low il by simp
  qed
qed

lemma ilog2_unique:
  assumes "0 < x" "pow2 e \<le> x" "x < pow2 (e + 1)"
  shows "ilog2 x = e"
proof -
  have s: "pow2 (ilog2 x) \<le> x" "x < pow2 (ilog2 x + 1)" using ilog2_spec[OF assms(1)] by simp_all
  have "pow2 e < pow2 (ilog2 x + 1)" using assms(2) s(2) by linarith
  moreover have "pow2 (ilog2 x) < pow2 (e + 1)" using assms(3) s(1) by linarith
  ultimately show ?thesis by (simp add: pow2_less_iff)
qed

lemma ilog2_mono:
  assumes "0 < x" "x \<le> y"
  shows "ilog2 x \<le> ilog2 y"
proof -
  have "0 < y" using assms by linarith
  then have "pow2 (ilog2 x) < pow2 (ilog2 y + 1)"
    using ilog2_spec[OF assms(1)] ilog2_spec[of y] assms(2) by linarith
  then show ?thesis by (simp add: pow2_less_iff)
qed

lemma roundHalfEven_of_int: "roundHalfEven (of_int k) = k"
  by (simp add: roundHalfEven_def)

lemma roundHalfEven_range: "roundHalfEven m = \<lfloor>m\<rfloor> \<or> roundHalfEven m = \<lfloor>m\<rfloor> + 1"
  by (simp add: roundHalfEven_def Let_def)

lemma roundHalfEven_mono:
  assumes "m \<le> m'"
  shows "roundHalfEven m \<le> roundHalfEven m'"
proof -
  have fm: "\<lfloor>m\<rfloor> \<le> \<lfloor>m'\<rfloor>" using assms by (rule floor_mono)
  show ?thesis
  proof (cases "\<lfloor>m\<rfloor> = \<lfloor>m'\<rfloor>")
    case True
    then have "m - of_int \<lfloor>m\<rfloor> \<le> m' - of_int \<lfloor>m'\<rfloor>" using assms by simp
    then show ?thesis using True by (auto simp: roundHalfEven_def Let_def)
  next
    case False
    then have "\<lfloor>m\<rfloor> + 1 \<le> \<lfloor>m'\<rfloor>" using fm by linarith
    then show ?thesis
      using roundHalfEven_range[of m] roundHalfEven_range[of m'] by linarith
  qed
qed

lemma fl_alt: "x \<noteq> 0 \<Longrightarrow> fl x = of_int (roundHalfEven (x / quantum x)) * quantum x"
  by (simp add: fl_def quantum_def expo_def Let_def)

lemma fl_0: "fl 0 = 0"
  by (simp add: fl_def)

lemma quantum_pos: "0 < quantum x"
  by (simp add: quantum_def pow2_pos)

lemma pow2_53: "pow2 (e + 1) = 2 ^ 53 * pow2 (e - 52)"
proof -
  have "e + 1 = int 53 + (e - 52)" by simp
  then have "pow2 (e + 1) = pow2 (int 53 + (e - 52))" by (rule arg_cong)
  also have "\<dots> = pow2 (int 53) * pow2 (e - 52)" by (rule pow2_add)
  finally show ?thesis by (simp only: pow2_nat)
qed

lemma pow2_52: "pow2 e = 2 ^ 52 * pow2 (e - 52)"
proof -
  have "e = int 52 + (e - 52)" by simp
  then have "pow2 e = pow2 (int 52 + (e - 52))" by (rule arg_cong)
  also have "\<dots> = pow2 (int 52) * pow2 (e - 52)" by (rule pow2_add)
  finally show ?thesis by (simp only: pow2_nat)
qed

lemma expo_upper:
  assumes "0 < x"
  shows "x < pow2 (expo x + 1)"
proof -
  have "x < pow2 (ilog2 x + 1)" using ilog2_spec[OF assms] by simp
  moreover have "pow2 (ilog2 x + 1) \<le> pow2 (expo x + 1)"
    using assms by (intro pow2_mono) (simp add: expo_def)
  ultimately show ?thesis by linarith
qed

lemma expo_lower:
  assumes "0 < x" "- 1022 \<le> ilog2 x"
  shows "pow2 (expo x) \<le> x"
proof -
  have "expo x = ilog2 x" using assms by (simp add: expo_def)
  then show ?thesis using ilog2_spec[OF assms(1)] by simp
qed

lemma round_le:
  assumes "m \<le> of_int k"
  shows "roundHalfEven m \<le> k"
  using roundHalfEven_mono[OF assms] by (simp add: roundHalfEven_of_int)

lemma round_ge:
  assumes "of_int k \<le> m"
  shows "k \<le> roundHalfEven m"
  using roundHalfEven_mono[OF assms] by (simp add: roundHalfEven_of_int)

lemma significand_upper:
  assumes "0 < x"
  shows "roundHalfEven (x / quantum x) \<le> 2 ^ 53"
proof -
  have "x < 2 ^ 53 * quantum x"
    using expo_upper[OF assms] unfolding pow2_53[of "expo x"] quantum_def .
  then have "x / quantum x \<le> 2 ^ 53"
    using quantum_pos[of x] by (simp add: divide_le_eq)
  then have "x / quantum x \<le> of_int (2 ^ 53)" by simp
  then show ?thesis by (rule round_le)
qed

lemma significand_lower:
  assumes "0 < x" "- 1022 \<le> ilog2 x"
  shows "2 ^ 52 \<le> roundHalfEven (x / quantum x)"
proof -
  have "2 ^ 52 * quantum x \<le> x"
    using expo_lower[OF assms] unfolding pow2_52[of "expo x"] quantum_def .
  then have "2 ^ 52 \<le> x / quantum x"
    using quantum_pos[of x] by (simp add: le_divide_eq)
  then have "of_int (2 ^ 52) \<le> x / quantum x" by simp
  then show ?thesis by (rule round_ge)
qed

lemma significand_nonneg:
  assumes "0 \<le> x"
  shows "0 \<le> roundHalfEven (x / quantum x)"
proof -
  have "of_int 0 \<le> x / quantum x" using assms quantum_pos[of x] by simp
  then show ?thesis by (rule round_ge)
qed

lemma fl_nonneg: "0 \<le> x \<Longrightarrow> 0 \<le> fl x"
proof (cases "x = 0")
  case True
  then show ?thesis by (simp add: fl_0)
next
  case False
  assume "0 \<le> x"
  then show ?thesis
    using significand_nonneg[of x] quantum_pos[of x] by (simp add: fl_alt[OF False])
qed

lemma fl_upper:
  assumes "0 < x"
  shows "fl x \<le> pow2 (expo x + 1)"
proof -
  have "of_int (roundHalfEven (x / quantum x)) \<le> (2 ^ 53 :: rat)"
    using significand_upper[OF assms] by (metis of_int_le_iff of_int_numeral of_int_power)
  then have "of_int (roundHalfEven (x / quantum x)) * quantum x \<le> 2 ^ 53 * quantum x"
    using quantum_pos[of x] by (intro mult_right_mono) simp_all
  then show ?thesis
    using assms unfolding pow2_53[of "expo x"] quantum_def[symmetric] by (simp add: fl_alt)
qed

lemma fl_lower:
  assumes "0 < x" "- 1022 \<le> ilog2 x"
  shows "pow2 (expo x) \<le> fl x"
proof -
  have "(2 ^ 52 :: rat) \<le> of_int (roundHalfEven (x / quantum x))"
    using significand_lower[OF assms] by (metis of_int_le_iff of_int_numeral of_int_power)
  then have "2 ^ 52 * quantum x \<le> of_int (roundHalfEven (x / quantum x)) * quantum x"
    using quantum_pos[of x] by (intro mult_right_mono) simp_all
  then show ?thesis
    using assms unfolding pow2_52[of "expo x"] quantum_def[symmetric] by (simp add: fl_alt)
qed

lemma expo_mono:
  assumes "0 < x" "x \<le> y"
  shows "expo x \<le> expo y"
proof -
  have "ilog2 x \<le> ilog2 y" using assms by (rule ilog2_mono)
  moreover have "0 < y" using assms by linarith
  ultimately show ?thesis using assms(1) by (simp add: expo_def)
qed

lemma fl_mono_nonneg:
  assumes "0 \<le> x" "x \<le> y"
  shows "fl x \<le> fl y"
proof (cases "x = 0")
  case True
  then show ?thesis using fl_nonneg[of y] assms by (simp add: fl_0)
next
  case False
  then have x: "0 < x" using assms by simp
  then have y: "0 < y" using assms by linarith
  show ?thesis
  proof (cases "expo x = expo y")
    case True
    then have q: "quantum x = quantum y" by (simp add: quantum_def)
    have "x / quantum y \<le> y / quantum y"
      using assms(2) quantum_pos[of y] by (simp add: divide_right_mono)
    then have "roundHalfEven (x / quantum y) \<le> roundHalfEven (y / quantum y)"
      by (rule roundHalfEven_mono)
    then have "(of_int (roundHalfEven (x / quantum y)) :: rat) \<le> of_int (roundHalfEven (y / quantum y))"
      by simp
    then have "of_int (roundHalfEven (x / quantum y)) * quantum y
                \<le> of_int (roundHalfEven (y / quantum y)) * quantum y"
      using quantum_pos[of y] by (intro mult_right_mono) simp_all
    then show ?thesis using x y by (simp add: fl_alt q)
  next
    case False
    then have lt: "expo x + 1 \<le> expo y" using expo_mono[OF x assms(2)] by linarith
    then have "- 1022 < expo y" by (simp add: expo_def)
    then have "- 1022 \<le> ilog2 y" using y by (simp add: expo_def)
    then have "pow2 (expo y) \<le> fl y" using fl_lower[OF y] by simp
    moreover have "fl x \<le> pow2 (expo x + 1)" by (rule fl_upper[OF x])
    moreover have "pow2 (expo x + 1) \<le> pow2 (expo y)" using lt by (rule pow2_mono)
    ultimately show ?thesis by linarith
  qed
qed

lemma expo_ge: "- 1022 \<le> expo x"
  by (simp add: expo_def)

lemma fl_on_grid:
  assumes "0 < y" "y = of_int n * quantum y"
  shows "fl y = y"
proof -
  have "y / quantum y = of_int n"
    using assms(2) quantum_pos[of y] by (metis nonzero_mult_div_cancel_right less_irrefl)
  then have "roundHalfEven (y / quantum y) = n" by (simp add: roundHalfEven_of_int)
  then show ?thesis using assms by (simp add: fl_alt)
qed

lemma fl_idem_pos:
  assumes "0 < x"
  shows "fl (fl x) = fl x"
proof -
  define n where "n = roundHalfEven (x / quantum x)"
  define E where "E = expo x"
  define y where "y = fl x"
  have q: "quantum x = pow2 (E - 52)" by (simp add: quantum_def E_def)
  have y: "y = of_int n * pow2 (E - 52)"
    using assms by (simp add: y_def fl_alt n_def q)
  have n0: "0 \<le> n" using significand_nonneg[of x] assms by (simp add: n_def)
  have n53: "n \<le> 2 ^ 53" using significand_upper[OF assms] by (simp add: n_def)
  have E: "- 1022 \<le> E" by (simp add: E_def expo_ge)
  show ?thesis
  proof (cases "n = 0")
    case True
    then show ?thesis using y by (simp add: y_def[symmetric] fl_0)
  next
    case False
    then have npos: "0 < n" using n0 by simp
    then have ypos: "0 < y" using y pow2_pos[of "E - 52"] by simp
    show ?thesis
    proof (cases "n = 2 ^ 53")
      case True
      then have y1: "y = pow2 (E + 1)" using y by (simp add: pow2_53[of E])
      have "ilog2 y = E + 1"
      proof (rule ilog2_unique[OF ypos])
        show "pow2 (E + 1) \<le> y" using y1 by simp
        show "y < pow2 (E + 1 + 1)" unfolding y1 by (rule pow2_strict_mono) simp
      qed
      then have "expo y = E + 1" using E ypos by (simp add: expo_def)
      then have qy: "quantum y = pow2 (E + 1 - 52)" by (simp add: quantum_def)
      have "y = 2 ^ 52 * pow2 (E + 1 - 52)"
        using y1 pow2_52[of "E + 1"] by (simp only:)
      then have "y = of_int (2 ^ 52) * quantum y"
        by (metis qy of_int_numeral of_int_power)
      then have "fl y = y" by (rule fl_on_grid[OF ypos])
      then show ?thesis by (simp add: y_def)
    next
      case False
      then have "n < 2 ^ 53" using n53 by simp
      then have "(of_int n :: rat) < 2 ^ 53"
        by (metis of_int_less_iff of_int_numeral of_int_power)
      then have "of_int n * pow2 (E - 52) < 2 ^ 53 * pow2 (E - 52)"
        using pow2_pos[of "E - 52"] by (simp add: mult_strict_right_mono)
      then have yup: "y < pow2 (E + 1)" unfolding y pow2_53[of E] .
      have "pow2 (ilog2 y) < pow2 (E + 1)"
        using ilog2_spec[OF ypos] yup by linarith
      then have ile: "ilog2 y \<le> E" by (simp add: pow2_less_iff)
      have "expo y = E"
      proof (cases "- 1022 \<le> ilog2 x")
        case True
        have "pow2 (expo x) \<le> fl x" using fl_lower[OF assms True] .
        then have "pow2 E \<le> y" by (simp add: E_def y_def)
        then have "pow2 E < pow2 (ilog2 y + 1)" using ilog2_spec[OF ypos] by linarith
        then have "E \<le> ilog2 y" by (simp add: pow2_less_iff)
        then have "ilog2 y = E" using ile by simp
        then show ?thesis using E ypos by (simp add: expo_def)
      next
        case False
        then have "E = - 1022" using assms by (simp add: E_def expo_def)
        then show ?thesis using ile ypos by (simp add: expo_def)
      qed
      then have "quantum y = pow2 (E - 52)" by (simp add: quantum_def)
      then have "y = of_int n * quantum y" using y by simp
      then have "fl y = y" by (rule fl_on_grid[OF ypos])
      then show ?thesis by (simp add: y_def)
    qed
  qed
qed

lemma fl_idem_nonneg: "0 \<le> x \<Longrightarrow> fl (fl x) = fl x"
  using fl_idem_pos[of x] by (cases "x = 0") (simp_all add: fl_0)

lemma roundHalfEven_near: "\<bar>of_int (roundHalfEven m) - m\<bar> \<le> 1 / 2"
proof -
  have "of_int \<lfloor>m\<rfloor> \<le> m" and "m < of_int \<lfloor>m\<rfloor> + 1" by linarith+
  then show ?thesis by (auto simp: roundHalfEven_def Let_def abs_le_iff)
qed

text \<open>\<open>fl x\<close> is a multiple of the spacing, at most half a spacing away from \<open>x\<close>.\<close>

lemma fl_near:
  assumes "x \<noteq> 0"
  shows "\<bar>fl x - x\<bar> \<le> quantum x / 2"
proof -
  have q: "0 < quantum x" by (rule quantum_pos)
  have "fl x - x = (of_int (roundHalfEven (x / quantum x)) - x / quantum x) * quantum x"
    using q assms by (simp add: fl_alt algebra_simps)
  then have "\<bar>fl x - x\<bar> = \<bar>of_int (roundHalfEven (x / quantum x)) - x / quantum x\<bar> * quantum x"
    using q by (simp add: abs_mult)
  also have "\<dots> \<le> 1 / 2 * quantum x"
    using roundHalfEven_near[of "x / quantum x"] q by (intro mult_right_mono) simp_all
  finally show ?thesis by simp
qed

lemma fl_examples:
  "fl (1 / 10) = 3602879701896397 / 36028797018963968 \<and>
   fl (67 / 100) = 6034823500676465 / 9007199254740992 \<and>
   fl (2 ^ 53 + 1) = 2 ^ 53 \<and> fl (2 ^ 53 + 3) = 2 ^ 53 + 4 \<and>
   fl (- (1 / 10)) = - (3602879701896397 / 36028797018963968)"
  by code_simp

section \<open>Verification: pot size\<close>

text \<open>
  C1. For the 6-max hand with blinds 0.5/1 and the actions UTG raise 2.5, HJ fold, CO fold,
  BTN fold, SB fold, BB call, the pot entering the flop is computed as 7 BB: the blinds are
  counted in the initial pot and again through the seeded bets (1.5 + 0.5 + 2.5 + 2.5 BB).
\<close>

theorem potSize_open_fold_call_flop: "potSize open_fold_call Flop 6 Blind_05_1 = 7"
  by code_simp

lemma setBet_values: "set (bets_values (setBet b k v)) \<subseteq> insert v (set (bets_values b))"
  by (induction b k v rule: setBet.induct) (auto simp: bets_values_def)

lemma setBet_nonneg: "bets_nonneg b \<Longrightarrow> 0 \<le> v \<Longrightarrow> bets_nonneg (setBet b k v)"
  using setBet_values[of b k v] by (auto simp: bets_nonneg_def)

lemma foldr_max_nonneg: "(0::rat) \<le> foldr max xs 0"
  by (induction xs) (auto simp: max_def)

lemma maxBet_nonneg: "0 \<le> maxBet b"
  by (simp add: maxBet_def foldr_max_nonneg)

lemma applyBet_nonneg:
  "bets_nonneg b \<Longrightarrow> (\<forall>v. sizeBb a = Some v \<longrightarrow> 0 \<le> v \<or> v = - 1) \<Longrightarrow> bets_nonneg (applyBet b a)"
  using maxBet_nonneg[of b]
  by (auto simp: applyBet_def setBet_nonneg split: option.splits if_splits)

lemma foldl_applyBet_nonneg:
  "bets_nonneg b \<Longrightarrow> sizes_ok xs \<Longrightarrow> bets_nonneg (foldl applyBet b xs)"
proof (induction xs arbitrary: b)
  case Nil
  then show ?case by simp
next
  case (Cons a xs)
  have "bets_nonneg (applyBet b a)"
    using Cons.prems by (intro applyBet_nonneg) (auto simp: sizes_ok_def)
  moreover have "sizes_ok xs" using Cons.prems by (simp add: sizes_ok_def)
  ultimately show ?case using Cons.IH by simp
qed

lemma resetBets_nonneg: "bets_nonneg (resetBets b)"
  by (auto simp: bets_nonneg_def resetBets_def bets_values_def)

lemma sizes_ok_filter: "sizes_ok xs \<Longrightarrow> sizes_ok (filter P xs)"
  by (auto simp: sizes_ok_def)

lemma foldl_dadd_nonneg:
  "0 \<le> acc \<Longrightarrow> \<forall>v \<in> set vs. 0 \<le> v \<Longrightarrow> 0 \<le> foldl dadd acc vs"
proof (induction vs arbitrary: acc)
  case Nil
  then show ?case by simp
next
  case (Cons v vs)
  have "0 \<le> dadd acc v" using Cons.prems by (simp add: dadd_def fl_nonneg)
  then show ?case using Cons by simp
qed

lemma sumBets_nonneg: "bets_nonneg b \<Longrightarrow> 0 \<le> sumBets b"
  by (simp add: sumBets_def bets_nonneg_def foldl_dadd_nonneg)

text \<open>Adding a non-negative amount to a pot does not lower it, also after rounding.\<close>

lemma dadd_pot:
  assumes "pot_ok p" and "0 \<le> s"
  shows "p \<le> dadd p s \<and> pot_ok (dadd p s)"
proof -
  have p: "0 \<le> p" "fl p = p" using assms(1) by (simp_all add: pot_ok_def)
  have "fl p \<le> fl (p + s)" using p(1) assms(2) by (intro fl_mono_nonneg) simp_all
  moreover have "0 \<le> fl (p + s)" using p(1) assms(2) by (intro fl_nonneg) simp
  moreover have "fl (fl (p + s)) = fl (p + s)" using p(1) assms(2) by (intro fl_idem_nonneg) simp
  ultimately show ?thesis using p(2) by (simp add: dadd_def pot_ok_def)
qed

lemma potStep_mono:
  assumes "sizes_ok acts" "pot_ok (fst st)" "bets_nonneg (snd st)"
  shows "fst st \<le> fst (potStep acts k st i) \<and> pot_ok (fst (potStep acts k st i)) \<and>
         bets_nonneg (snd (potStep acts k st i))"
proof (cases "i < k")
  case True
  let ?b = "foldl applyBet (snd st) (filter (\<lambda>a. street a = streets ! i) acts)"
  have "bets_nonneg ?b"
    using assms(1,3) by (intro foldl_applyBet_nonneg sizes_ok_filter)
  then have "0 \<le> sumBets ?b" by (rule sumBets_nonneg)
  then show ?thesis
    using True dadd_pot[OF assms(2), of "sumBets ?b"] resetBets_nonneg[of ?b]
    by (simp add: potStep_def Let_def)
next
  case False
  then show ?thesis using assms by (simp add: potStep_def Let_def)
qed

lemma potStep_skip: "\<not> i < k \<Longrightarrow> potStep acts k st i = st"
  by (simp add: potStep_def Let_def)

lemma potStep_same: "i < k \<Longrightarrow> i < k' \<Longrightarrow> potStep acts k st i = potStep acts k' st i"
  by (simp add: potStep_def Let_def)

lemma potSize_unfold:
  "potSize acts s ts b = fst (foldl (potStep acts (streetIndex s)) (initialPot ts b) [0 ..< Suc (streetIndex s)])"
  by (simp add: potSize_def initialPot_def Let_def)

lemma initialPot_ok:
  "pot_ok (fst (initialPot ts b)) \<and> bets_nonneg (snd (initialPot ts b))"
proof -
  have d: "0 \<le> ddiv (getSBSize b) (getBBSize b)"
    by (cases b) (simp_all add: ddiv_def fl_nonneg)
  have z: "pot_ok 0" by (simp add: pot_ok_def fl_0)
  have "pot_ok (if ts \<ge> 3 then dadd 0 (ddiv (getSBSize b) (getBBSize b)) else 0)"
    using dadd_pot[OF z d] z by simp
  then have "pot_ok (fst (initialPot ts b))"
    using dadd_pot[of _ 1] by (simp add: initialPot_def)
  moreover have "bets_nonneg (snd (initialPot ts b))"
    using d by (simp add: initialPot_def setBet_nonneg bets_nonneg_def bets_values_def)
  ultimately show ?thesis by simp
qed

lemma foldl_potStep_ok:
  "sizes_ok acts \<Longrightarrow> pot_ok (fst st) \<Longrightarrow> bets_nonneg (snd st) \<Longrightarrow>
   pot_ok (fst (foldl (potStep acts k) st is)) \<and> bets_nonneg (snd (foldl (potStep acts k) st is))"
  by (induction "is" arbitrary: st) (auto simp: potStep_mono)

lemma foldl_potStep_elapsed:
  "foldl (potStep acts k) st [0 ..< Suc k] = foldl (potStep acts k) st [0 ..< k]"
  by (simp add: potStep_skip)

lemma foldl_potStep_cong:
  "n \<le> k \<Longrightarrow> n \<le> k' \<Longrightarrow> foldl (potStep acts k) st [0 ..< n] = foldl (potStep acts k') st [0 ..< n]"
  by (induction n) (auto simp: potStep_same)

lemma potSize_Suc:
  assumes "sizes_ok acts" "streetIndex s2 = Suc (streetIndex s1)"
  shows "potSize acts s1 ts b \<le> potSize acts s2 ts b"
proof -
  let ?k = "streetIndex s1"
  let ?st = "foldl (potStep acts ?k) (initialPot ts b) [0 ..< ?k]"
  have a: "potSize acts s1 ts b = fst ?st"
    by (simp only: potSize_unfold foldl_potStep_elapsed)
  have "foldl (potStep acts (Suc ?k)) (initialPot ts b) [0 ..< Suc ?k]
        = potStep acts (Suc ?k) (foldl (potStep acts (Suc ?k)) (initialPot ts b) [0 ..< ?k]) ?k"
    by simp
  also have "foldl (potStep acts (Suc ?k)) (initialPot ts b) [0 ..< ?k] = ?st"
    by (rule foldl_potStep_cong) auto
  finally have b: "potSize acts s2 ts b = fst (potStep acts (Suc ?k) ?st ?k)"
    by (simp only: potSize_unfold foldl_potStep_elapsed assms(2))
  have ok: "pot_ok (fst ?st) \<and> bets_nonneg (snd ?st)"
    using assms(1) initialPot_ok[of ts b] by (intro foldl_potStep_ok) simp_all
  then show ?thesis
    using potStep_mono[OF assms(1), of ?st "Suc ?k" ?k] a b by simp
qed

text \<open>
  C10. When every recorded size is non-negative or the all-in sentinel \<open>-1\<close>, the pot
  entering a street never decreases along preflop, flop, turn, river.
\<close>

theorem potSize_monotone:
  assumes "\<forall>a \<in> set actions. \<forall>v. sizeBb a = Some v \<longrightarrow> 0 \<le> v \<or> v = - 1"
  shows "potSize actions Preflop tableSize blind \<le> potSize actions Flop tableSize blind \<and>
         potSize actions Flop tableSize blind \<le> potSize actions Turn tableSize blind \<and>
         potSize actions Turn tableSize blind \<le> potSize actions River tableSize blind"
proof -
  have ok: "sizes_ok actions" using assms by (simp add: sizes_ok_def)
  show ?thesis
    by (intro conjI potSize_Suc[OF ok]) simp_all
qed

theorem potSize_monotone_witness:
  "sizes_ok open_fold_call \<and>
   potSize open_fold_call Preflop 6 Blind_05_1 \<le> potSize open_fold_call Flop 6 Blind_05_1 \<and>
   potSize open_fold_call Flop 6 Blind_05_1 \<le> potSize open_fold_call Turn 6 Blind_05_1 \<and>
   potSize open_fold_call Turn 6 Blind_05_1 \<le> potSize open_fold_call River 6 Blind_05_1"
proof -
  have h: "\<forall>a \<in> set open_fold_call. \<forall>v. sizeBb a = Some v \<longrightarrow> 0 \<le> v \<or> v = - 1"
    by (simp add: open_fold_call_def mkAction_def)
  then have "sizes_ok open_fold_call"
    by (simp only: sizes_ok_def)
  then show ?thesis using potSize_monotone[OF h, of 6 Blind_05_1] by simp
qed

section \<open>Verification: the active-player resolver\<close>

lemma latestOf_Cons:
  "latestOf x (y # ys) = latestOf (if order y > order x then y else x) ys"
  by (simp add: latestOf_def)

lemma latestOf_Nil: "latestOf x [] = x"
  by (simp add: latestOf_def)

lemma latestOf_mem: "latestOf x xs \<in> set (x # xs)"
proof (induction xs arbitrary: x)
  case Nil
  show ?case by (simp add: latestOf_Nil)
next
  case (Cons y ys)
  show ?case using Cons.IH[of "if order y > order x then y else x"]
    by (auto simp: latestOf_Cons split: if_splits)
qed

lemma latestOf_ge_seed: "order x \<le> order (latestOf x xs)"
proof (induction xs arbitrary: x)
  case Nil
  show ?case by (simp add: latestOf_Nil)
next
  case (Cons y ys)
  show ?case using Cons.IH[of "if order y > order x then y else x"]
    by (auto simp: latestOf_Cons split: if_splits)
qed

lemma latestOf_max: "a \<in> set (x # xs) \<Longrightarrow> order a \<le> order (latestOf x xs)"
proof (induction xs arbitrary: x)
  case Nil
  then show ?case by (simp add: latestOf_Nil)
next
  case (Cons y ys)
  let ?s = "if order y > order x then y else x"
  have seed: "order ?s \<le> order (latestOf ?s ys)" by (rule latestOf_ge_seed)
  from Cons.prems consider "a = x" | "a = y" | "a \<in> set ys" by auto
  then show ?case
  proof cases
    case 1
    then show ?thesis using seed by (auto simp: latestOf_Cons split: if_splits)
  next
    case 2
    then show ?thesis using seed by (auto simp: latestOf_Cons split: if_splits)
  next
    case 3
    then show ?thesis using Cons.IH[of ?s] by (simp add: latestOf_Cons)
  qed
qed

lemma set_foldl_pushCallers:
  "set (foldl (pushCallers k) inHand xs) =
     set inHand \<union> {position a | a. a \<in> set xs \<and> order a > k \<and>
                        (atype a = CALL \<or> (atype a = RAISE \<and> sizeBb a = Some (- 1)))}"
proof (induction xs arbitrary: inHand)
  case Nil
  show ?case by simp
next
  case (Cons x xs)
  show ?case
    unfolding foldl_Cons Cons.IH
    by (auto simp: pushCallers_def)
qed

lemma set_foldl_pushAllIn:
  "set (foldl pushAllIn inHand xs) =
     set inHand \<union> {position a | a. a \<in> set xs \<and> sizeBb a = Some (- 1)}"
proof (induction xs arbitrary: inHand)
  case Nil
  show ?case by simp
next
  case (Cons x xs)
  show ?case
    unfolding foldl_Cons Cons.IH
    by (auto simp: pushAllIn_def)
qed

lemma playersInHand_no_raise:
  "filter isRaise (preflopActions actions) = [] \<Longrightarrow>
   playersInHand actions tableSize = postflopOrder tableSize"
  by (simp add: playersInHand_def)

lemma playersInHand_raised:
  assumes "filter isRaise (preflopActions actions) = r # rs"
  shows "playersInHand actions tableSize =
     filter (\<lambda>pos. pos = position (latestOf r rs) \<or>
                  (\<exists>a \<in> set (preflopActions actions).
                      atype a = CALL \<and> order a > order (latestOf r rs) \<and> position a = pos) \<or>
                  (\<exists>a \<in> set (preflopActions actions). sizeBb a = Some (- 1) \<and> position a = pos))
       (postflopOrder tableSize)"
proof -
  have "playersInHand actions tableSize =
     filter (\<lambda>pos. pos \<in> set (foldl pushAllIn
               (foldl (pushCallers (order (latestOf r rs))) [position (latestOf r rs)]
                  (preflopActions actions)) (preflopActions actions)))
       (postflopOrder tableSize)"
    using assms by (simp add: playersInHand_def Let_def)
  also have "\<dots> = filter (\<lambda>pos. pos = position (latestOf r rs) \<or>
                  (\<exists>a \<in> set (preflopActions actions).
                      atype a = CALL \<and> order a > order (latestOf r rs) \<and> position a = pos) \<or>
                  (\<exists>a \<in> set (preflopActions actions). sizeBb a = Some (- 1) \<and> position a = pos))
       (postflopOrder tableSize)"
    by (rule filter_cong[OF refl]) (auto simp: set_foldl_pushAllIn set_foldl_pushCallers)
  finally show ?thesis .
qed

lemma lastRaise_props:
  assumes "filter isRaise (preflopActions actions) = r # rs"
  shows "latestOf r rs \<in> set (preflopActions actions) \<and> atype (latestOf r rs) = RAISE \<and>
         (\<forall>a \<in> set (preflopActions actions). atype a = RAISE \<longrightarrow> order a \<le> order (latestOf r rs))"
proof -
  have mem: "latestOf r rs \<in> set (filter isRaise (preflopActions actions))"
    using latestOf_mem[of r rs] assms by simp
  have "\<forall>a \<in> set (filter isRaise (preflopActions actions)). order a \<le> order (latestOf r rs)"
    using latestOf_max[of _ r rs] assms by simp
  then show ?thesis using mem by (auto simp: isRaise_def)
qed

lemma playersInHand_example: "playersInHand btn_open_bb_call 6 = [BB, BTN]"
  by code_simp

text \<open>
  C2. Without a preflop raise the resolver returns the postflop order unchanged. Otherwise
  it returns the postflop order filtered to the seat of the last raise (a preflop raise of
  greatest order), the seats with a preflop call of greater order than that raise, and the
  seats with a preflop action of size \<open>-1\<close>; for BTN raise 3, SB fold, BB call at 6-max
  the result is BB, BTN.
\<close>

theorem playersInHand_spec:
  "(filter isRaise (preflopActions actions) = [] \<longrightarrow>
      playersInHand actions tableSize = postflopOrder tableSize) \<and>
   (\<forall>r rs. filter isRaise (preflopActions actions) = r # rs \<longrightarrow>
      latestOf r rs \<in> set (preflopActions actions) \<and> atype (latestOf r rs) = RAISE \<and>
      (\<forall>a \<in> set (preflopActions actions). atype a = RAISE \<longrightarrow> order a \<le> order (latestOf r rs)) \<and>
      playersInHand actions tableSize =
        filter (\<lambda>pos. pos = position (latestOf r rs) \<or>
                  (\<exists>a \<in> set (preflopActions actions).
                      atype a = CALL \<and> order a > order (latestOf r rs) \<and> position a = pos) \<or>
                  (\<exists>a \<in> set (preflopActions actions). sizeBb a = Some (- 1) \<and> position a = pos))
          (postflopOrder tableSize)) \<and>
   playersInHand btn_open_bb_call 6 = [BB, BTN]"
  using playersInHand_no_raise[of actions tableSize] playersInHand_raised[of actions _ _ tableSize]
    lastRaise_props[of actions] playersInHand_example
  by blast

theorem playersInHand_spec_witness:
  "filter isRaise (preflopActions btn_open_bb_call) = [mkAction ''b0'' 0 Preflop BTN RAISE (Some 3)] \<and>
   playersInHand btn_open_bb_call 6 =
     filter (\<lambda>pos. pos = BTN \<or> pos = BB) (postflopOrder 6) \<and>
   playersInHand btn_open_bb_call 6 = [BB, BTN]"
proof -
  have r: "filter isRaise (preflopActions btn_open_bb_call) = [mkAction ''b0'' 0 Preflop BTN RAISE (Some 3)]"
    by (simp add: btn_open_bb_call_def preflopActions_def isRaise_def mkAction_def)
  have "playersInHand btn_open_bb_call 6 =
        filter (\<lambda>pos. pos = position (latestOf (mkAction ''b0'' 0 Preflop BTN RAISE (Some 3)) []) \<or>
                  (\<exists>a \<in> set (preflopActions btn_open_bb_call).
                      atype a = CALL \<and> order a > order (latestOf (mkAction ''b0'' 0 Preflop BTN RAISE (Some 3)) []) \<and> position a = pos) \<or>
                  (\<exists>a \<in> set (preflopActions btn_open_bb_call). sizeBb a = Some (- 1) \<and> position a = pos))
          (postflopOrder 6)"
    using playersInHand_spec[of btn_open_bb_call 6] r by blast
  also have "\<dots> = filter (\<lambda>pos. pos = BTN \<or> pos = BB) (postflopOrder 6)"
    by (rule filter_cong[OF refl])
       (auto simp: latestOf_def btn_open_bb_call_def preflopActions_def mkAction_def)
  finally have a: "playersInHand btn_open_bb_call 6 = filter (\<lambda>pos. pos = BTN \<or> pos = BB) (postflopOrder 6)" .
  have "filter (\<lambda>pos. pos = BTN \<or> pos = BB) (postflopOrder 6) = [BB, BTN]"
    by (simp add: postflopOrder_def POSTFLOP_ACTION_ORDER_def)
  with a r show ?thesis by simp
qed

section \<open>Verification: street completion\<close>

lemma set_uniq: "set (uniq xs) = set xs"
  by (simp add: uniq_def)

lemma preflopActivePlayers_alt:
  "preflopActivePlayers actions currentStreet tableSize =
     filter (\<lambda>p. p \<notin> set (explicitlyFoldedPositions actions) \<and>
                  p \<notin> set (implicitlyFoldedPositions actions currentStreet tableSize))
       (preflopOrder tableSize)"
  unfolding preflopActivePlayers_def Let_def
  by (rule filter_cong[OF refl])
     (auto simp: allFoldedPositions_def set_uniq explicitlyFoldedPositions_def
        currentStreetActions_def)

lemma sortedByOrder_props:
  "sorted (map order (sortedByOrder xs)) \<and> set (sortedByOrder xs) = set xs \<and>
   length (sortedByOrder xs) = length xs"
  by (simp add: sortedByOrder_def)

lemma isStreetComplete_preflop_iff:
  assumes "currentStreetActions actions Preflop = c # cs"
    and "filter isRaise (c # cs) \<noteq> []"
  shows "isStreetComplete actions Preflop tableSize \<longleftrightarrow>
     \<not> isOpenRaise (latestOf c cs) \<and>
     ((atype (latestOf c cs) = CALL \<and> length (filter isRaise (c # cs)) = 1 \<and>
         position (latestOf c cs) = BB) \<or>
      (atype (latestOf c cs) = CALL \<and> length (filter isRaise (c # cs)) \<ge> 2 \<and>
         position (latestOf c cs) =
           position (sortedByOrder (filter isRaise (c # cs)) !
                       (length (filter isRaise (c # cs)) - 2))) \<or>
      length (preflopActivePlayers actions Preflop tableSize) = 1)"
proof -
  define raises where "raises = filter isRaise (c # cs)"
  define n where "n = length raises"
  define lastAction where "lastAction = latestOf c cs"
  define secondLast where "secondLast = position (sortedByOrder raises ! (n - 2))"
  define active where "active = length (preflopActivePlayers actions Preflop tableSize)"
  have n: "n > 0" using assms(2) by (simp add: n_def raises_def)
  have code: "isStreetComplete actions Preflop tableSize \<longleftrightarrow>
       (if atype lastAction = RAISE \<and> sizeBb lastAction \<noteq> Some (- 1) then False
        else if n > 0 then
          (if atype lastAction = CALL \<and>
              (if n = 1 then position lastAction = BB else position lastAction = secondLast)
           then True else active = 1)
        else False)"
    unfolding isStreetComplete_def assms(1) list.case Let_def
      raises_def n_def lastAction_def secondLast_def active_def
    by (simp only: if_True refl)
  have "isStreetComplete actions Preflop tableSize \<longleftrightarrow>
     \<not> isOpenRaise lastAction \<and>
     ((atype lastAction = CALL \<and> n = 1 \<and> position lastAction = BB) \<or>
      (atype lastAction = CALL \<and> n \<ge> 2 \<and> position lastAction = secondLast) \<or>
      active = 1)"
    unfolding code isOpenRaise_def using n by (cases "n = 1") auto
  then show ?thesis
    unfolding raises_def n_def lastAction_def secondLast_def active_def .
qed

text \<open>
  C3 as stated fails: at a 3-handed table with BTN fold, SB fold, BB raise 3 a preflop raise
  exists and only one seat has not folded, yet the street is reported incomplete.
\<close>

theorem isStreetComplete_preflop_counterexample:
  "filter isRaise (currentStreetActions folds_then_bb_raise Preflop) \<noteq> [] \<and>
   length (preflopActivePlayers folds_then_bb_raise Preflop 3) = 1 \<and>
   \<not> isStreetComplete folds_then_bb_raise Preflop 3"
  by code_simp

lemma isStreetComplete_preflop_examples:
  "isStreetComplete open_fold_call Preflop 6 \<and> \<not> isStreetComplete utg_open_bb_3bet Preflop 6"
  by code_simp

text \<open>
  C3, amended. On preflop with at least one raise recorded, the street is complete exactly
  when the last action (greatest order) is not a raise of a size other than \<open>-1\<close> and
  (a) there is exactly one raise and the last action is a call by BB, or (b) there are two
  or more raises and the last action is a call by the seat of the second-to-last raise, or
  (c) exactly one seat of the preflop order is neither explicitly nor implicitly folded.
  A single raise closed by a BB call is complete; a raise answered by a BB re-raise is not.
\<close>

theorem isStreetComplete_preflop:
  assumes "currentStreetActions actions Preflop = c # cs"
    and "filter isRaise (c # cs) \<noteq> []"
  shows "(isStreetComplete actions Preflop tableSize \<longleftrightarrow>
     \<not> isOpenRaise (latestOf c cs) \<and>
     ((atype (latestOf c cs) = CALL \<and> length (filter isRaise (c # cs)) = 1 \<and>
         position (latestOf c cs) = BB) \<or>
      (atype (latestOf c cs) = CALL \<and> length (filter isRaise (c # cs)) \<ge> 2 \<and>
         position (latestOf c cs) =
           position (sortedByOrder (filter isRaise (c # cs)) !
                       (length (filter isRaise (c # cs)) - 2))) \<or>
      length (filter (\<lambda>p. p \<notin> set (explicitlyFoldedPositions actions) \<and>
                          p \<notin> set (implicitlyFoldedPositions actions Preflop tableSize))
                (preflopOrder tableSize)) = 1)) \<and>
    latestOf c cs \<in> set (c # cs) \<and>
    (\<forall>a \<in> set (c # cs). order a \<le> order (latestOf c cs)) \<and>
    sorted (map order (sortedByOrder (filter isRaise (c # cs)))) \<and>
    set (sortedByOrder (filter isRaise (c # cs))) = set (filter isRaise (c # cs)) \<and>
    isStreetComplete open_fold_call Preflop 6 \<and>
    \<not> isStreetComplete utg_open_bb_3bet Preflop 6"
proof -
  have "\<forall>a \<in> set (c # cs). order a \<le> order (latestOf c cs)"
    using latestOf_max[of _ c cs] by blast
  then show ?thesis
    using isStreetComplete_preflop_iff[OF assms, of tableSize]
      preflopActivePlayers_alt[of actions Preflop tableSize]
      latestOf_mem[of c cs] sortedByOrder_props[of "filter isRaise (c # cs)"]
      isStreetComplete_preflop_examples
    by simp
qed

theorem isStreetComplete_preflop_witness:
  "currentStreetActions open_fold_call Preflop = open_fold_call \<and>
   filter isRaise open_fold_call \<noteq> [] \<and>
   atype (latestOf (hd open_fold_call) (tl open_fold_call)) = CALL \<and>
   position (latestOf (hd open_fold_call) (tl open_fold_call)) = BB \<and>
   isStreetComplete open_fold_call Preflop 6"
proof -
  obtain c cs where ccs: "open_fold_call = c # cs"
    by (simp add: open_fold_call_def)
  have h1: "currentStreetActions open_fold_call Preflop = c # cs"
    unfolding ccs[symmetric] by code_simp
  have h2: "filter isRaise (c # cs) \<noteq> []"
    unfolding ccs[symmetric] by code_simp
  have l: "atype (latestOf (hd open_fold_call) (tl open_fold_call)) = CALL \<and>
           position (latestOf (hd open_fold_call) (tl open_fold_call)) = BB \<and>
           length (filter isRaise open_fold_call) = 1"
    by code_simp
  have l': "atype (latestOf c cs) = CALL \<and> position (latestOf c cs) = BB \<and>
            length (filter isRaise (c # cs)) = 1"
    using l unfolding ccs by simp
  then have "\<not> isOpenRaise (latestOf c cs)"
    by (simp add: isOpenRaise_def)
  with l' have "isStreetComplete open_fold_call Preflop 6"
    using isStreetComplete_preflop[OF h1 h2, of 6] by blast
  with h1 h2 l show ?thesis unfolding ccs[symmetric] by simp
qed

lemma isStreetComplete_postflop_checks:
  assumes "currentStreet \<noteq> Preflop"
    and "currentStreetActions actions currentStreet = c # cs"
    and "filter isRaise (c # cs) = []"
  shows "isStreetComplete actions currentStreet tableSize \<longleftrightarrow>
     length (filter (\<lambda>a. atype a = CHECK) (c # cs)) \<ge>
     length (availablePositions actions currentStreet tableSize)"
proof -
  have "latestOf c cs \<in> set (c # cs)" by (rule latestOf_mem)
  moreover have "\<forall>a \<in> set (c # cs). \<not> isRaise a"
    using assms(3) by (simp only: filter_empty_conv)
  ultimately have g: "atype (latestOf c cs) \<noteq> RAISE"
    by (auto simp: isRaise_def)
  show ?thesis
    unfolding isStreetComplete_def assms(2) list.case Let_def assms(3)
    using g assms(1) by (simp only: if_False simp_thms)
qed

lemma isStreetComplete_postflop_raised:
  assumes "currentStreet \<noteq> Preflop"
    and "currentStreetActions actions currentStreet = c # cs"
    and "filter isRaise (c # cs) = r # rs"
  shows "isStreetComplete actions currentStreet tableSize \<longleftrightarrow>
     (\<forall>p \<in> set (availablePositions actions currentStreet tableSize).
         p \<noteq> position (latestOf r rs) \<longrightarrow>
           (\<exists>a \<in> set (c # cs). order a > order (latestOf r rs) \<and> position a = p) \<or>
           p \<in> set (explicitlyFoldedPositions actions)) \<and>
     \<not> isOpenRaise (latestOf c cs)"
proof -
  define lastAction where "lastAction = latestOf c cs"
  define lastRaise where "lastRaise = latestOf r rs"
  define avail where "avail = availablePositions actions currentStreet tableSize"
  define folded where "folded = explicitlyFoldedPositions actions"
  have code: "isStreetComplete actions currentStreet tableSize \<longleftrightarrow>
     (if atype lastAction = RAISE \<and> sizeBb lastAction \<noteq> Some (- 1) then False
      else (\<forall>p \<in> set (filter (\<lambda>p. p \<noteq> position lastRaise) avail).
               p \<in> set (map position (filter (\<lambda>a. order a > order lastRaise) (c # cs))) \<or>
               p \<in> set folded) \<and>
           (atype lastAction \<noteq> RAISE \<or> sizeBb lastAction = Some (- 1)))"
    unfolding isStreetComplete_def assms(2) list.case Let_def assms(3)
      lastAction_def lastRaise_def avail_def folded_def
    using assms(1) by (simp only: if_False)
  have "isStreetComplete actions currentStreet tableSize \<longleftrightarrow>
     (\<forall>p \<in> set avail. p \<noteq> position lastRaise \<longrightarrow>
           (\<exists>a \<in> set (c # cs). order a > order lastRaise \<and> position a = p) \<or>
           p \<in> set folded) \<and>
     \<not> isOpenRaise lastAction"
    unfolding code isOpenRaise_def by auto
  then show ?thesis
    unfolding lastAction_def lastRaise_def avail_def folded_def .
qed

text \<open>
  The two postflop branches. Without a raise on the street the test compares the number
  of checks with the number of active seats (the seats still in the hand that have not
  explicitly folded); with a raise the street is complete exactly when every active seat
  other than the last raiser has an action on the street of greater order than the last
  raise (or has explicitly folded) and the last action is not a raise of a size other
  than \<open>-1\<close>.
\<close>

lemma isStreetComplete_postflop_branches:
  assumes "currentStreet \<noteq> Preflop"
    and "currentStreetActions actions currentStreet = c # cs"
  shows "(filter isRaise (c # cs) = [] \<longrightarrow>
      (isStreetComplete actions currentStreet tableSize \<longleftrightarrow>
         length (filter (\<lambda>a. atype a = CHECK) (c # cs)) \<ge>
         length (availablePositions actions currentStreet tableSize))) \<and>
    (\<forall>r rs. filter isRaise (c # cs) = r # rs \<longrightarrow>
      (isStreetComplete actions currentStreet tableSize \<longleftrightarrow>
         (\<forall>p \<in> set (availablePositions actions currentStreet tableSize).
             p \<noteq> position (latestOf r rs) \<longrightarrow>
               (\<exists>a \<in> set (c # cs). order a > order (latestOf r rs) \<and> position a = p) \<or>
               p \<in> set (explicitlyFoldedPositions actions)) \<and>
         \<not> isOpenRaise (latestOf c cs)) \<and>
      latestOf r rs \<in> set (r # rs) \<and>
      (\<forall>a \<in> set (r # rs). order a \<le> order (latestOf r rs))) \<and>
    availablePositions actions currentStreet tableSize =
      filter (\<lambda>p. p \<notin> set (explicitlyFoldedPositions actions)) (playersInHand actions tableSize) \<and>
    latestOf c cs \<in> set (c # cs) \<and>
    (\<forall>a \<in> set (c # cs). order a \<le> order (latestOf c cs))"
proof -
  have m: "\<And>x xs. \<forall>a \<in> set (x # xs). order a \<le> order (latestOf x xs)"
    using latestOf_max by blast
  have av: "availablePositions actions currentStreet tableSize =
      filter (\<lambda>p. p \<notin> set (explicitlyFoldedPositions actions)) (playersInHand actions tableSize)"
    using assms(1) by (simp add: availablePositions_def)
  show ?thesis
    using isStreetComplete_postflop_checks[OF assms, of tableSize]
      isStreetComplete_postflop_raised[OF assms, of _ _ tableSize]
      latestOf_mem m av
    by blast
qed

lemma isStreetComplete_postflop_raise_example:
  "currentStreetActions flop_bet_call Flop =
     [mkAction ''a6'' 6 Flop BB CHECK None, mkAction ''a7'' 7 Flop UTG RAISE (Some 3),
      mkAction ''a8'' 8 Flop BB CALL None] \<and>
   availablePositions flop_bet_call Flop 6 = [BB, UTG] \<and>
   isStreetComplete flop_bet_call Flop 6"
proof -
  let ?c = "mkAction ''a6'' 6 Flop BB CHECK None"
  let ?r = "mkAction ''a7'' 7 Flop UTG RAISE (Some 3)"
  let ?cs = "[?r, mkAction ''a8'' 8 Flop BB CALL None]"
  have h0: "Flop \<noteq> Preflop" by simp
  have h1: "currentStreetActions flop_bet_call Flop = ?c # ?cs"
    by code_simp
  have h2: "filter isRaise (?c # ?cs) = ?r # []"
    by code_simp
  have av: "availablePositions flop_bet_call Flop 6 = [BB, UTG]"
    by code_simp
  have rhs: "(\<forall>p \<in> set (availablePositions flop_bet_call Flop 6).
             p \<noteq> position (latestOf ?r []) \<longrightarrow>
               (\<exists>a \<in> set (?c # ?cs). order a > order (latestOf ?r []) \<and> position a = p) \<or>
               p \<in> set (explicitlyFoldedPositions flop_bet_call)) \<and>
         \<not> isOpenRaise (latestOf ?c ?cs)"
    by code_simp
  have "isStreetComplete flop_bet_call Flop 6"
    using isStreetComplete_postflop_branches[OF h0 h1, of 6] h2 rhs by blast
  with h1 av show ?thesis by simp
qed

text \<open>
  C4. On the flop of the hand UTG raise 2.5, four folds, BB call, the active seats are BB
  and UTG. After one check by BB the street is not complete; after a second check by BB
  the count of checks reaches the number of active seats and the street is reported
  complete although UTG has recorded no check.
\<close>

theorem flop_complete_without_utg_check:
  "availablePositions flop_bb_checks_twice Flop 6 = [BB, UTG] \<and>
   map position (filter (\<lambda>a. atype a = CHECK) (currentStreetActions flop_bb_checks_twice Flop))
     = [BB, BB] \<and>
   isStreetComplete flop_bb_checks_once Flop 6 = False \<and>
   isStreetComplete flop_bb_checks_twice Flop 6 = True"
  by code_simp

theorem flop_complete_without_utg_check_witness:
  "UTG \<in> set (availablePositions flop_bb_checks_twice Flop 6) \<and>
   UTG \<notin> set (map position (currentStreetActions flop_bb_checks_twice Flop)) \<and>
   isStreetComplete flop_bb_checks_twice Flop 6"
proof -
  have "UTG \<notin> set (map position (currentStreetActions flop_bb_checks_twice Flop))"
    by code_simp
  then show ?thesis using flop_complete_without_utg_check by simp
qed

section \<open>Verification: implicit folds\<close>

lemma earliestOf_Cons:
  "earliestOf x (y # ys) = earliestOf (if order y < order x then y else x) ys"
  by (simp add: earliestOf_def)

lemma earliestOf_Nil: "earliestOf x [] = x"
  by (simp add: earliestOf_def)

lemma earliestOf_mem: "earliestOf x xs \<in> set (x # xs)"
proof (induction xs arbitrary: x)
  case Nil
  show ?case by (simp add: earliestOf_Nil)
next
  case (Cons y ys)
  show ?case using Cons.IH[of "if order y < order x then y else x"]
    by (auto simp: earliestOf_Cons split: if_splits)
qed

lemma earliestOf_le_seed: "order (earliestOf x xs) \<le> order x"
proof (induction xs arbitrary: x)
  case Nil
  show ?case by (simp add: earliestOf_Nil)
next
  case (Cons y ys)
  show ?case using Cons.IH[of "if order y < order x then y else x"]
    by (auto simp: earliestOf_Cons split: if_splits)
qed

lemma earliestOf_min: "a \<in> set (x # xs) \<Longrightarrow> order (earliestOf x xs) \<le> order a"
proof (induction xs arbitrary: x)
  case Nil
  then show ?case by (simp add: earliestOf_Nil)
next
  case (Cons y ys)
  let ?s = "if order y < order x then y else x"
  have seed: "order (earliestOf ?s ys) \<le> order ?s" by (rule earliestOf_le_seed)
  from Cons.prems consider "a = x" | "a = y" | "a \<in> set ys" by auto
  then show ?case
  proof cases
    case 1
    then show ?thesis using seed by (auto simp: earliestOf_Cons split: if_splits)
  next
    case 2
    then show ?thesis using seed by (auto simp: earliestOf_Cons split: if_splits)
  next
    case 3
    then show ?thesis using Cons.IH[of ?s] by (simp add: earliestOf_Cons)
  qed
qed

lemma indexOf_bounds: "- 1 \<le> indexOf xs x \<and> indexOf xs x < int (length xs)"
  by (induction xs) (auto simp: Let_def)

lemma indexOf_absent: "x \<notin> set xs \<Longrightarrow> indexOf xs x = - 1"
  by (induction xs) (auto simp: Let_def)

lemma indexOf_present:
  "x \<in> set xs \<Longrightarrow> 0 \<le> indexOf xs x \<and> xs ! nat (indexOf xs x) = x \<and>
     x \<notin> set (take (nat (indexOf xs x)) xs)"
proof (induction xs)
  case Nil
  then show ?case by simp
next
  case (Cons y ys)
  show ?case
  proof (cases "y = x")
    case True
    then show ?thesis by simp
  next
    case False
    then have "x \<in> set ys" using Cons.prems by simp
    from Cons.IH[OF this] have ih: "0 \<le> indexOf ys x" "ys ! nat (indexOf ys x) = x"
      "x \<notin> set (take (nat (indexOf ys x)) ys)" by simp_all
    have n: "nat (indexOf ys x + 1) = Suc (nat (indexOf ys x))" using ih(1) by simp
    show ?thesis using False ih by (simp add: Let_def n)
  qed
qed

lemma foldl_implicitStep:
  "n \<le> length po \<Longrightarrow>
   foldl (implicitStep pa po) [] [0 ..< n] =
     filter (\<lambda>p. \<forall>a \<in> set pa. position a \<noteq> p) (take n po)"
proof (induction n)
  case 0
  show ?case by simp
next
  case (Suc n)
  then have lt: "n < length po" and le: "n \<le> length po" by simp_all
  have "foldl (implicitStep pa po) [] [0 ..< Suc n] =
        implicitStep pa po (foldl (implicitStep pa po) [] [0 ..< n]) n"
    by simp
  also have "\<dots> = implicitStep pa po (filter (\<lambda>p. \<forall>a \<in> set pa. position a \<noteq> p) (take n po)) n"
    using Suc.IH[OF le] by simp
  also have "\<dots> = filter (\<lambda>p. \<forall>a \<in> set pa. position a \<noteq> p) (take (Suc n) po)"
    using lt by (auto simp: implicitStep_def Let_def take_Suc_conv_app_nth)
  finally show ?case .
qed

lemma implicitlyFolded_raised:
  assumes "filter isRaise (preflopActions actions) = r # rs"
  shows "implicitlyFoldedPositions actions Preflop tableSize =
     filter (\<lambda>p. \<forall>a \<in> set (preflopActions actions). position a \<noteq> p)
       (take (nat (indexOf (preflopOrder tableSize) (position (earliestOf r rs))))
          (preflopOrder tableSize))"
proof -
  have "nat (indexOf (preflopOrder tableSize) (position (earliestOf r rs)))
          \<le> length (preflopOrder tableSize)"
    using indexOf_bounds[of "preflopOrder tableSize" "position (earliestOf r rs)"] by linarith
  then show ?thesis
    using assms by (simp add: implicitlyFoldedPositions_def Let_def foldl_implicitStep)
qed

lemma implicitlyFolded_none:
  "filter isRaise (preflopActions actions) = [] \<Longrightarrow>
   implicitlyFoldedPositions actions currentStreet tableSize = []"
  by (simp add: implicitlyFoldedPositions_def)

lemma implicitlyFolded_postflop:
  "currentStreet \<noteq> Preflop \<Longrightarrow> implicitlyFoldedPositions actions currentStreet tableSize = []"
  by (simp add: implicitlyFoldedPositions_def)

lemma availablePositions_preflop:
  "availablePositions actions Preflop tableSize =
     filter (\<lambda>pos. pos \<notin> set (explicitlyFoldedPositions actions) \<and>
                    pos \<notin> set (implicitlyFoldedPositions actions Preflop tableSize))
       (preflopOrder tableSize)"
  unfolding availablePositions_def
  by (simp add: allFoldedPositions_def set_uniq)

lemma implicit_examples:
  "implicitlyFoldedPositions co_open_btn_call Preflop 6 = [UTG, HJ] \<and>
   availablePositions co_open_btn_call Preflop 6 = [CO, BTN, SB, BB]"
  by code_simp

lemma preflopActions_all:
  "\<forall>a \<in> set actions. street a = Preflop \<Longrightarrow> preflopActions actions = actions"
  by (simp add: preflopActions_def)

lemma implicit_not_in_hand:
  assumes "p \<in> set (implicitlyFoldedPositions actions Preflop tableSize)"
  shows "p \<notin> set (availablePositions actions currentStreet tableSize)"
proof (cases "currentStreet = Preflop")
  case True
  then show ?thesis using assms by (simp add: availablePositions_preflop)
next
  case False
  show ?thesis
  proof (cases "filter isRaise (preflopActions actions)")
    case Nil
    then show ?thesis using assms implicitlyFolded_none[of actions Preflop tableSize] by simp
  next
    case (Cons r rs)
    have noact: "\<forall>a \<in> set (preflopActions actions). position a \<noteq> p"
      using assms unfolding implicitlyFolded_raised[OF Cons] by simp
    have "latestOf r rs \<in> set (preflopActions actions)"
      using lastRaise_props[OF Cons] by blast
    then have "p \<notin> set (playersInHand actions tableSize)"
      using noact unfolding playersInHand_raised[OF Cons] by auto
    then show ?thesis using False by (simp add: availablePositions_def)
  qed
qed

text \<open>
  C5. For a list of preflop actions, while the current street is preflop: without a raise
  there are no implicit folds; otherwise the implicit folds are exactly the seats before
  the seat of the earliest raise (smallest order) in the preflop order that have no
  recorded action at all. The loop computes this for any order list. Implicitly folded
  seats appear among the available positions of no street. For the order UTG, HJ, CO,
  BTN, SB, BB and CO raise 3, BTN call the implicit folds are UTG, HJ, and the available
  positions are CO, BTN, SB, BB.
\<close>

theorem implicitlyFoldedPositions_spec:
  assumes "\<forall>a \<in> set actions. street a = Preflop"
  shows "(filter isRaise actions = [] \<longrightarrow>
      implicitlyFoldedPositions actions Preflop tableSize = []) \<and>
   (\<forall>r rs. filter isRaise actions = r # rs \<longrightarrow>
      implicitlyFoldedPositions actions Preflop tableSize =
        filter (\<lambda>p. \<forall>a \<in> set actions. position a \<noteq> p)
          (take (nat (indexOf (preflopOrder tableSize) (position (earliestOf r rs))))
             (preflopOrder tableSize)) \<and>
      earliestOf r rs \<in> set (r # rs) \<and>
      (\<forall>a \<in> set (r # rs). order (earliestOf r rs) \<le> order a) \<and>
      (position (earliestOf r rs) \<in> set (preflopOrder tableSize) \<longrightarrow>
         preflopOrder tableSize !
           nat (indexOf (preflopOrder tableSize) (position (earliestOf r rs))) =
           position (earliestOf r rs) \<and>
         position (earliestOf r rs) \<notin>
           set (take (nat (indexOf (preflopOrder tableSize) (position (earliestOf r rs))))
                  (preflopOrder tableSize)))) \<and>
   (\<forall>po pos. foldl (implicitStep actions po) [] [0 ..< nat (indexOf po pos)] =
        filter (\<lambda>p. \<forall>a \<in> set actions. position a \<noteq> p) (take (nat (indexOf po pos)) po)) \<and>
   (\<forall>currentStreet.
      set (availablePositions actions currentStreet tableSize) \<inter>
        set (implicitlyFoldedPositions actions Preflop tableSize) = {}) \<and>
   implicitlyFoldedPositions co_open_btn_call Preflop 6 = [UTG, HJ] \<and>
   availablePositions co_open_btn_call Preflop 6 = [CO, BTN, SB, BB]"
proof -
  have pa: "preflopActions actions = actions"
    using assms by (rule preflopActions_all)
  have m: "\<And>x xs. \<forall>a \<in> set (x # xs). order (earliestOf x xs) \<le> order a"
    using earliestOf_min by blast
  have d: "\<forall>currentStreet.
      set (availablePositions actions currentStreet tableSize) \<inter>
        set (implicitlyFoldedPositions actions Preflop tableSize) = {}"
    using implicit_not_in_hand[of _ actions tableSize] by blast
  have loop: "\<forall>po pos. foldl (implicitStep actions po) [] [0 ..< nat (indexOf po pos)] =
        filter (\<lambda>p. \<forall>a \<in> set actions. position a \<noteq> p) (take (nat (indexOf po pos)) po)"
  proof (intro allI)
    fix po :: "Position list" and pos
    have "nat (indexOf po pos) \<le> length po"
      using indexOf_bounds[of po pos] by linarith
    then show "foldl (implicitStep actions po) [] [0 ..< nat (indexOf po pos)] =
        filter (\<lambda>p. \<forall>a \<in> set actions. position a \<noteq> p) (take (nat (indexOf po pos)) po)"
      by (rule foldl_implicitStep)
  qed
  show ?thesis
    using implicitlyFolded_none[of actions Preflop tableSize]
      implicitlyFolded_raised[of actions _ _ tableSize]
      earliestOf_mem m d loop implicit_examples
      indexOf_present[of _ "preflopOrder tableSize"]
    unfolding pa
    by blast
qed

theorem implicitlyFoldedPositions_spec_witness:
  "preflopActions co_open_btn_call = co_open_btn_call \<and>
   filter isRaise co_open_btn_call = [mkAction ''e0'' 0 Preflop CO RAISE (Some 3)] \<and>
   preflopOrder 6 = [UTG, HJ, CO, BTN, SB, BB] \<and>
   indexOf (preflopOrder 6) CO = 2 \<and>
   implicitlyFoldedPositions co_open_btn_call Preflop 6 = [UTG, HJ]"
proof -
  let ?r = "mkAction ''e0'' 0 Preflop CO RAISE (Some 3)"
  have h0: "\<forall>a \<in> set co_open_btn_call. street a = Preflop"
    by (simp add: co_open_btn_call_def mkAction_def)
  have pa: "preflopActions co_open_btn_call = co_open_btn_call"
    by code_simp
  have h: "filter isRaise co_open_btn_call = ?r # []"
    by code_simp
  have po: "preflopOrder 6 = [UTG, HJ, CO, BTN, SB, BB]"
    by code_simp
  have ix: "indexOf (preflopOrder 6) CO = 2"
    by code_simp
  have "implicitlyFoldedPositions co_open_btn_call Preflop 6 =
        filter (\<lambda>p. \<forall>a \<in> set co_open_btn_call. position a \<noteq> p)
          (take (nat (indexOf (preflopOrder 6) (position (earliestOf ?r []))))
             (preflopOrder 6))"
    using implicitlyFoldedPositions_spec[OF h0, of 6] h by blast
  also have "\<dots> = [UTG, HJ]"
    by code_simp
  finally show ?thesis using pa h po ix by simp
qed

section \<open>Verification: action labels\<close>

lemma raise_removed_raise_actions:
  "e_actions raise_removed_raise =
     [mkAction ''g1'' 1 Preflop HJ RAISE (Some 9), mkAction ''g2'' 1 Preflop CO RAISE (Some 27)]"
  by code_simp

lemma getRaiseLabel_count:
  "atype action = RAISE \<Longrightarrow>
   getRaiseLabel action allActions =
     (if street action = Preflop then
        (if raisesUpTo action allActions = 1 then ''open''
         else if raisesUpTo action allActions = 2 then ''3bet''
         else if raisesUpTo action allActions = 3 then ''4bet''
         else if raisesUpTo action allActions = 4 then ''5bet''
         else numToString (raisesUpTo action allActions + 1) @ ''bet'')
      else (if raisesUpTo action allActions = 1 then ''bet'' else ''raise''))"
proof -
  have "length (filter (\<lambda>a. atype a = RAISE)
          (filter (\<lambda>a. street a = street action \<and> order a \<le> order action) allActions))
        = raisesUpTo action allActions"
    unfolding raisesUpTo_def filter_filter
    by (rule arg_cong[where f = length], rule filter_cong[OF refl]) auto
  then show ?thesis if "atype action = RAISE"
    using that by (simp only: getRaiseLabel_def Let_def simp_thms if_False)
qed

lemma count_split:
  "length (filter (\<lambda>a. P a \<and> order a \<le> k) xs) =
   length (filter (\<lambda>a. P a \<and> order a < k) xs) + length (filter (\<lambda>a. P a \<and> order a = k) xs)"
  by (induction xs) auto

lemma raisesUpTo_split:
  "raisesUpTo action allActions =
     length (filter (\<lambda>a. street a = street action \<and> atype a = RAISE \<and>
                          order a < order action) allActions) + raisesAt action allActions"
proof -
  have "raisesUpTo action allActions =
      length (filter (\<lambda>a. (atype a = RAISE \<and> street a = street action) \<and> order a < order action) allActions)
      + length (filter (\<lambda>a. (atype a = RAISE \<and> street a = street action) \<and> order a = order action) allActions)"
    unfolding raisesUpTo_def
    using count_split[of "\<lambda>a. atype a = RAISE \<and> street a = street action" "order action" allActions]
    by (simp add: conj_assoc)
  moreover have "filter (\<lambda>a. (atype a = RAISE \<and> street a = street action) \<and> order a < order action) allActions
      = filter (\<lambda>a. street a = street action \<and> atype a = RAISE \<and> order a < order action) allActions"
    by (rule filter_cong[OF refl]) auto
  ultimately show ?thesis by (simp add: raisesAt_def conj_assoc)
qed

lemma numToString_5: "numToString 5 = ''5''"
  by code_simp

lemma labels_agree:
  assumes "atype action = RAISE \<longrightarrow> raisesAt action allActions = 1"
  shows "getActionDisplayLabel allActions action = getRaiseLabel action allActions"
proof (cases "atype action = RAISE")
  case False
  then show ?thesis by (simp add: getActionDisplayLabel_def getRaiseLabel_def)
next
  case True
  define prior where "prior = length (filter (\<lambda>a. street a = street action \<and> atype a = RAISE \<and>
                          order a < order action) allActions)"
  have n: "raisesUpTo action allActions = prior + 1"
    using raisesUpTo_split[of action allActions] assms True by (simp add: prior_def)
  have d: "getActionDisplayLabel allActions action =
     (if street action = Preflop then
        (if prior = 0 then ''open'' else if prior = 1 then ''3bet''
         else if prior = 2 then ''4bet'' else numToString (prior + 2) @ ''bet'')
      else (if prior = 0 then ''bet'' else ''raise''))"
    using True by (simp only: getActionDisplayLabel_def Let_def prior_def if_True simp_thms)
  have e: "getRaiseLabel action allActions =
     (if street action = Preflop then
        (if prior + 1 = 1 then ''open''
         else if prior + 1 = 2 then ''3bet''
         else if prior + 1 = 3 then ''4bet''
         else if prior + 1 = 4 then ''5bet''
         else numToString (prior + 1 + 1) @ ''bet'')
      else (if prior + 1 = 1 then ''bet'' else ''raise''))"
    using getRaiseLabel_count[OF True, of allActions] unfolding n .
  have five: "prior = 3 \<Longrightarrow> numToString (prior + 2) = ''5''"
    using numToString_5 by (simp add: numeral_eq_Suc)
  show ?thesis
    unfolding d e using five by (auto simp: numeral_eq_Suc)
qed

lemma raisesUpTo_member: "action \<in> set allActions \<Longrightarrow> atype action = RAISE \<Longrightarrow> raisesUpTo action allActions \<ge> 1"
proof -
  assume a: "action \<in> set allActions" "atype action = RAISE"
  then have "action \<in> set (filter (\<lambda>a. atype a = RAISE \<and> street a = street action \<and>
                          order a \<le> order action) allActions)"
    by simp
  then have "filter (\<lambda>a. atype a = RAISE \<and> street a = street action \<and>
                          order a \<le> order action) allActions \<noteq> []"
    by (metis empty_iff list.set(1))
  then show ?thesis unfolding raisesUpTo_def
    by (simp add: Suc_le_eq)
qed

lemma raisesUpTo_street:
  "raisesUpTo action (filter (\<lambda>b. street b = street action) allActions) = raisesUpTo action allActions"
  unfolding raisesUpTo_def filter_filter
  by (rule arg_cong[where f = length], rule filter_cong[OF refl]) auto

lemma getRaiseLabel_street:
  "getRaiseLabel action (filter (\<lambda>b. street b = street action) allActions) =
   getRaiseLabel action allActions"
proof (cases "atype action = RAISE")
  case True
  show ?thesis
    unfolding getRaiseLabel_count[OF True] raisesUpTo_street ..
next
  case False
  then show ?thesis by (simp add: getRaiseLabel_def)
qed

lemma three_raises_labels:
  "map (\<lambda>a. getRaiseLabel a three_raises) (filter (\<lambda>a. street a = Preflop) three_raises) =
     [''open'', ''3bet'', ''4bet''] \<and>
   map (getActionDisplayLabel three_raises) (filter (\<lambda>a. street a = Preflop) three_raises) =
     [''open'', ''3bet'', ''4bet'']"
  by code_simp

lemma five_raises_labels:
  "map (\<lambda>a. getRaiseLabel a five_raises) five_raises =
     [''open'', ''3bet'', ''4bet'', ''5bet'', ''6bet''] \<and>
   map (getActionDisplayLabel five_raises) five_raises =
     [''open'', ''3bet'', ''4bet'', ''5bet'', ''6bet'']"
  by code_simp

lemma length_filter_eq_distinct:
  "distinct xs \<Longrightarrow> x \<in> set xs \<Longrightarrow> length (filter (\<lambda>a. a = x) xs) = 1"
proof (induction xs)
  case Nil
  then show ?case by simp
next
  case (Cons y ys)
  show ?case
  proof (cases "y = x")
    case True
    then have "x \<notin> set ys" using Cons.prems(1) by simp
    then have "filter (\<lambda>a. a = x) ys = []" by (auto simp: filter_empty_conv)
    with True show ?thesis by simp
  next
    case False
    then show ?thesis using Cons by simp
  qed
qed

lemma raisesAt_distinct:
  assumes "distinct (map order allActions)" and "action \<in> set allActions"
    and "atype action = RAISE"
  shows "raisesAt action allActions = 1"
proof -
  have inj: "inj_on order (set allActions)" and d: "distinct allActions"
    using assms(1) by (simp_all add: distinct_map)
  have "filter (\<lambda>a. atype a = RAISE \<and> street a = street action \<and> order a = order action)
          allActions = filter (\<lambda>a. a = action) allActions"
    using inj assms(2,3) by (intro filter_cong[OF refl]) (auto dest: inj_onD)
  then show ?thesis
    unfolding raisesAt_def using length_filter_eq_distinct[OF d assms(2)] by simp
qed

text \<open>
  Where the orders of the list are pairwise different, the editor's label and the export
  label of every action of the list are the same.
\<close>

lemma labels_agree_distinct:
  assumes "distinct (map order allActions)" and "action \<in> set allActions"
  shows "getActionDisplayLabel allActions action = getRaiseLabel action allActions"
  using labels_agree[of action allActions] raisesAt_distinct[OF assms] by blast

text \<open>
  The export label of a raise follows the number \<open>n\<close> of raises of its street of order at
  most its own: on preflop ``open'', ``3bet'', ``4bet'', ``5bet'' for \<open>n = 1, 2, 3, 4\<close>
  and the decimal of \<open>n + 1\<close> followed by ``bet'' for \<open>n \<ge> 5\<close>, postflop ``bet'' for
  \<open>n = 1\<close> and ``raise'' for \<open>n \<ge> 2\<close>; an action that is not a raise is labelled with
  its lowercase type name by both labelers, and the label does not depend on the actions
  of other streets.
\<close>

lemma export_labels:
  "(atype action \<noteq> RAISE \<longrightarrow>
      getRaiseLabel action allActions = toLowerCase (atype action) \<and>
      getActionDisplayLabel allActions action = toLowerCase (atype action)) \<and>
   (atype action = RAISE \<and> street action = Preflop \<longrightarrow>
      (raisesUpTo action allActions = 1 \<longrightarrow> getRaiseLabel action allActions = ''open'') \<and>
      (raisesUpTo action allActions = 2 \<longrightarrow> getRaiseLabel action allActions = ''3bet'') \<and>
      (raisesUpTo action allActions = 3 \<longrightarrow> getRaiseLabel action allActions = ''4bet'') \<and>
      (raisesUpTo action allActions = 4 \<longrightarrow> getRaiseLabel action allActions = ''5bet'') \<and>
      (raisesUpTo action allActions \<ge> 5 \<longrightarrow>
         getRaiseLabel action allActions =
           numToString (raisesUpTo action allActions + 1) @ ''bet'')) \<and>
   (atype action = RAISE \<and> street action \<noteq> Preflop \<longrightarrow>
      (raisesUpTo action allActions = 1 \<longrightarrow> getRaiseLabel action allActions = ''bet'') \<and>
      (raisesUpTo action allActions \<ge> 2 \<longrightarrow> getRaiseLabel action allActions = ''raise'')) \<and>
   (action \<in> set allActions \<and> atype action = RAISE \<longrightarrow> raisesUpTo action allActions \<ge> 1) \<and>
   getRaiseLabel action (filter (\<lambda>b. street b = street action) allActions) =
     getRaiseLabel action allActions"
proof -
  have nr: "atype action \<noteq> RAISE \<longrightarrow>
      getRaiseLabel action allActions = toLowerCase (atype action) \<and>
      getActionDisplayLabel allActions action = toLowerCase (atype action)"
    by (simp add: getRaiseLabel_def getActionDisplayLabel_def)
  have pre: "atype action = RAISE \<and> street action = Preflop \<longrightarrow>
      (raisesUpTo action allActions = 1 \<longrightarrow> getRaiseLabel action allActions = ''open'') \<and>
      (raisesUpTo action allActions = 2 \<longrightarrow> getRaiseLabel action allActions = ''3bet'') \<and>
      (raisesUpTo action allActions = 3 \<longrightarrow> getRaiseLabel action allActions = ''4bet'') \<and>
      (raisesUpTo action allActions = 4 \<longrightarrow> getRaiseLabel action allActions = ''5bet'') \<and>
      (raisesUpTo action allActions \<ge> 5 \<longrightarrow>
         getRaiseLabel action allActions =
           numToString (raisesUpTo action allActions + 1) @ ''bet'')"
    using getRaiseLabel_count[of action allActions] by auto
  have post: "atype action = RAISE \<and> street action \<noteq> Preflop \<longrightarrow>
      (raisesUpTo action allActions = 1 \<longrightarrow> getRaiseLabel action allActions = ''bet'') \<and>
      (raisesUpTo action allActions \<ge> 2 \<longrightarrow> getRaiseLabel action allActions = ''raise'')"
    using getRaiseLabel_count[of action allActions] by auto
  have mem: "action \<in> set allActions \<and> atype action = RAISE \<longrightarrow> raisesUpTo action allActions \<ge> 1"
    using raisesUpTo_member by blast
  show ?thesis
    using nr pre post mem getRaiseLabel_street[of action allActions]
    by (intro conjI) (simp_all only:)
qed

text \<open>
  C6. After UTG opens, HJ re-raises, the UTG action is removed and CO raises, the two
  raises left both carry order 1 (the order of a new action is the length of the list).
  For HJ's raise the export counts two raises of order at most 1 and labels it ``3bet'';
  the editor counts no raise of smaller order and labels it ``open''.
\<close>

theorem labels_disagree_after_removal:
  "map order (e_actions raise_removed_raise) = [1, 1] \<and>
   mkAction ''g1'' 1 Preflop HJ RAISE (Some 9) \<in> set (e_actions raise_removed_raise) \<and>
   getRaiseLabel (mkAction ''g1'' 1 Preflop HJ RAISE (Some 9)) (e_actions raise_removed_raise)
     = ''3bet'' \<and>
   getActionDisplayLabel (e_actions raise_removed_raise)
     (mkAction ''g1'' 1 Preflop HJ RAISE (Some 9)) = ''open''"
  by code_simp

section \<open>Verification: pot-fraction sizing\<close>



lemma presets_values:
  "POSTFLOP_SIZE_PRESETS =
     [1 / 4, 5944751508129055 / 18014398509481984, 1 / 2,
      6034823500676465 / 9007199254740992, 1]"
  by code_simp




text \<open>
  With the sizes 2.3 and 4.6 the additions of the source round: the pot entering the flop
  is the double just below 14.5 (the exact sum of the amounts is 14.5), and a pot-sized
  bet is recorded as 14.
\<close>

lemma pot_below_tie:
  "potSize (e_actions flop_pot_below_tie) (e_currentStreet flop_pot_below_tie)
     (e_tableSize flop_pot_below_tie) (e_blind flop_pot_below_tie)
     = 8162774324609023 / 562949953421312 \<and>
   map sizeBb (e_actions (handlePotRatioSelect ''x'' 1 flop_pot_below_tie)) =
     map sizeBb (e_actions flop_pot_below_tie) @ [Some 14]"
  by code_simp




section \<open>Verification: order keys\<close>

text \<open>
  C8. After UTG fold and HJ fold are appended (orders 0 and 1) and the UTG action is
  removed, the next appended action takes the length of the list, 1, as its order: the
  same order as the HJ action still present.
\<close>

theorem order_reused_after_removal:
  "map order (e_actions fold_removed) = [1] \<and>
   map order (e_actions fold_removed_fold) = [1, 1] \<and>
   map position (e_actions fold_removed_fold) = [HJ, CO]"
  by code_simp

section \<open>Verification: table sizes without an entry\<close>

text \<open>
  C9 as stated fails: for table size 10 the preflop and postflop action orders are empty,
  not those of 6 seats.
\<close>

theorem out_of_range_order_counterexample:
  "preflopOrder 10 = [] \<and> postflopOrder 10 = [] \<and>
   preflopOrder 6 = [UTG, HJ, CO, BTN, SB, BB] \<and>
   postflopOrder 6 = [SB, BB, UTG, HJ, CO, BTN]"
  by code_simp

text \<open>
  C9, amended. For a table size outside 2 to 9 the seats of a new hand are those of the
  6-seat table, and the preflop and postflop action orders are the empty list; none of
  the three fails.
\<close>

theorem out_of_range_tableSize:
  assumes "tableSize < 2 \<or> 9 < tableSize"
  shows "newHandPositions tableSize = POSITIONS_BY_TABLE_SIZE 6 \<and>
         newHandPositions tableSize = Some [UTG, HJ, CO, BTN, SB, BB] \<and>
         preflopOrder tableSize = [] \<and>
         postflopOrder tableSize = []"
proof -
  have n: "POSITIONS_BY_TABLE_SIZE tableSize = None"
    using assms by (auto simp: POSITIONS_BY_TABLE_SIZE_def)
  have p: "PREFLOP_ACTION_ORDER tableSize = None"
    using assms by (auto simp: PREFLOP_ACTION_ORDER_def)
  have q: "POSTFLOP_ACTION_ORDER tableSize = None"
    using assms by (auto simp: POSTFLOP_ACTION_ORDER_def)
  have six: "POSITIONS_BY_TABLE_SIZE 6 = Some [UTG, HJ, CO, BTN, SB, BB]"
    by (simp add: POSITIONS_BY_TABLE_SIZE_def)
  show ?thesis
    by (simp add: newHandPositions_def preflopOrder_def postflopOrder_def n p q six)
qed

theorem out_of_range_tableSize_witness:
  "(9::int) < 10 \<and>
   newHandPositions 10 = Some [UTG, HJ, CO, BTN, SB, BB] \<and>
   preflopOrder 10 = [] \<and> postflopOrder 10 = []"
proof -
  have h: "(10::int) < 2 \<or> 9 < (10::int)" by simp
  have "(9::int) < 10" by simp
  with out_of_range_tableSize[OF h] show ?thesis by blast
qed

end
